theory Spec2Isabelle
  imports Main "HOL-Library.Multiset"
begin

section \<open>Grid (lib/grid.ts)\<close>

text \<open>
  A point of the grid. The source type is \<^verbatim>\<open>{ x: number; y: number }\<close>; the coordinates are
  integers (they may be negative: \<^verbatim>\<open>eightWayNeighbors\<close> yields such points at the border).
\<close>

datatype Point = Point (px: int) (py: int)

datatype error =
    OutOfBounds Point
  | AssertionFailed string
  | RangeError

text \<open>
  \<^verbatim>\<open>eightWayNeighbors\<close>: the generator's two nested loops, \<^verbatim>\<open>dx\<close> outermost, skipping the centre.
  The points are not bounds-filtered.
\<close>

definition eightWayNeighbors :: "Point \<Rightarrow> Point list" where
  "eightWayNeighbors point =
     concat (map (\<lambda>dx. concat (map (\<lambda>dy.
        if dx = 0 \<and> dy = 0 then [] else [Point (px point + dx) (py point + dy)])
      [-1, 0, 1])) [-1, 0, 1])"

text \<open>
  The class \<^verbatim>\<open>Grid<T>\<close>. The field \<^verbatim>\<open>size\<close> of the source is always \<^verbatim>\<open>width * height\<close> and is
  written out where it is used.
\<close>

record 'a Grid =
  width :: int
  height :: int
  array :: "'a list"

definition new_Grid :: "int \<Rightarrow> int \<Rightarrow> 'a list \<Rightarrow> error + 'a Grid" where
  "new_Grid w h arr =
     (if \<not> w > 0 then Inl (AssertionFailed ''Width should be greater than zero'')
      else if \<not> h > 0 then Inl (AssertionFailed ''Height should be greater than zero'')
      else if int (length arr) \<noteq> w * h
        then Inl (AssertionFailed ''Size of the array should be equal to the size of the grid'')
      else Inr \<lparr>width = w, height = h, array = arr\<rparr>)"

definition points :: "'a Grid \<Rightarrow> Point list" where
  "points g =
     concat (map (\<lambda>y. map (\<lambda>x. Point (int x) (int y)) [0..<nat (width g)])
                 [0..<nat (height g)])"

definition isInBounds :: "'a Grid \<Rightarrow> Point \<Rightarrow> bool" where
  "isInBounds g point \<longleftrightarrow>
     px point < width g \<and> py point < height g \<and> px point \<ge> 0 \<and> py point \<ge> 0"

definition pointToArrayIndex :: "'a Grid \<Rightarrow> Point \<Rightarrow> nat option" where
  "pointToArrayIndex g point =
     (if isInBounds g point then Some (nat (px point + width g * py point)) else None)"

text \<open>
  \<^verbatim>\<open>getOrNull\<close>: \<^verbatim>\<open>None\<close> is the source's \<^verbatim>\<open>null\<close>. The constructor of \<^verbatim>\<open>Grid\<close> asserts that the
  array is \<^verbatim>\<open>width * height\<close> long, so the index of a point in bounds is inside the array;
  a read past the end of the array (JavaScript's \<^verbatim>\<open>undefined\<close>, whose fields cannot be read) is
  \<^verbatim>\<open>None\<close> here as well, which keeps the model total on records that no constructor builds.
\<close>

definition getOrNull :: "'a Grid \<Rightarrow> Point \<Rightarrow> 'a option" where
  "getOrNull g point =
     (case pointToArrayIndex g point of
        None \<Rightarrow> None
      | Some index \<Rightarrow> if index < length (array g) then Some (array g ! index) else None)"

definition get :: "'a Grid \<Rightarrow> Point \<Rightarrow> error + 'a" where
  "get g point =
     (case getOrNull g point of
        None \<Rightarrow> Inl (OutOfBounds point)
      | Some v \<Rightarrow> Inr v)"

text \<open>
  The tiles are objects that the engine mutates through the reference \<^verbatim>\<open>get\<close> returned.
  Every cell holds its own object, so the mutation is a write at the index of the point.
\<close>

definition writeBack :: "'a Grid \<Rightarrow> Point \<Rightarrow> 'a \<Rightarrow> 'a Grid" where
  "writeBack g point v =
     (case pointToArrayIndex g point of
        None \<Rightarrow> g
      | Some index \<Rightarrow> g\<lparr>array := (array g)[index := v]\<rparr>)"

text \<open>\<^verbatim>\<open>Array.from(iterable, f)\<close> where \<^verbatim>\<open>f\<close> may throw: the first exception ends it.\<close>

fun arrayFrom :: "('a \<Rightarrow> error + 'b) \<Rightarrow> 'a list \<Rightarrow> error + 'b list" where
  "arrayFrom f [] = Inr []"
| "arrayFrom f (x # xs) =
     (case f x of
        Inl e \<Rightarrow> Inl e
      | Inr v \<Rightarrow> (case arrayFrom f xs of Inl e \<Rightarrow> Inl e | Inr vs \<Rightarrow> Inr (v # vs)))"

definition mapIndexed :: "'a Grid \<Rightarrow> (Point \<Rightarrow> 'a \<Rightarrow> 'b) \<Rightarrow> error + 'b Grid" where
  "mapIndexed g transform =
     (case arrayFrom (\<lambda>point. case get g point of
                                 Inl e \<Rightarrow> Inl e
                               | Inr v \<Rightarrow> Inr (transform point v)) (points g) of
        Inl e \<Rightarrow> Inl e
      | Inr newArray \<Rightarrow> new_Grid (width g) (height g) newArray)"

section \<open>Shuffle (utils/shuffle-array.ts)\<close>

text \<open>
  Fisher-Yates, from the last index down to 1. \<^verbatim>\<open>Math.floor(Math.random() * (i + 1))\<close> is an
  integer between 0 and \<^verbatim>\<open>i\<close>; the model takes that integer from \<open>rnd i\<close>, the random choice made
  at index \<open>i\<close>. The destructuring swap writes \<^verbatim>\<open>array[i]\<close> first, then \<^verbatim>\<open>array[j]\<close>.
\<close>

fun shuffleFrom :: "nat \<Rightarrow> (nat \<Rightarrow> nat) \<Rightarrow> 'a list \<Rightarrow> 'a list" where
  "shuffleFrom 0 rnd xs = xs"
| "shuffleFrom (Suc k) rnd xs =
     (let i = Suc k; j = rnd i
      in shuffleFrom k rnd (xs[i := xs ! j, j := xs ! i]))"

definition shuffleArray :: "(nat \<Rightarrow> nat) \<Rightarrow> 'a list \<Rightarrow> 'a list" where
  "shuffleArray rnd xs = shuffleFrom (length xs - 1) rnd xs"

section \<open>Board model (MinesweeperBoard)\<close>

datatype TileData = EmptyTile (bombNeighbors: nat) | BombTile

datatype Mark = Default | Flag

record TileState =
  state :: Mark
  isOpen :: bool
  wasClicked :: bool

datatype BoardState = NotStarted | Active | Won | Lost

text \<open>
  The two signals are modelled by what they have emitted so far, oldest first.
\<close>

record MinesweeperBoard =
  boardState :: BoardState
  tileData :: "TileData Grid"
  tileState :: "TileState Grid"
  bombCount :: nat
  tilesLeftToOpenToWin :: int
  tileChangedSignal :: "Point list"
  boardStateChangedSignal :: "BoardState list"

text \<open>
  A call that throws leaves the board as it was mutated so far: \<open>Inl (e, b)\<close> is the exception
  \<open>e\<close> raised with the board in state \<open>b\<close>.
\<close>

type_synonym result = "(error \<times> MinesweeperBoard) + MinesweeperBoard"

definition constructor :: "int \<Rightarrow> int \<Rightarrow> bool list \<Rightarrow> error + MinesweeperBoard" where
  "constructor w h bombsArray =
     (if \<not> w > 0 then Inl (AssertionFailed ''Width should be greater than zero'')
      else if \<not> h > 0 then Inl (AssertionFailed ''Height should be greater than zero'')
      else if int (length bombsArray) \<noteq> w * h
        then Inl (AssertionFailed
                    ''Bomb array should be as long as the size of the cells of the grid'')
      else case new_Grid w h bombsArray of
        Inl e \<Rightarrow> Inl e
      | Inr bombsGrid \<Rightarrow>
          (case mapIndexed bombsGrid (\<lambda>point isBomb.
                  if isBomb then BombTile
                  else EmptyTile (length (filter
                         (\<lambda>q. case getOrNull bombsGrid q of None \<Rightarrow> False | Some v \<Rightarrow> v)
                         (eightWayNeighbors point)))) of
             Inl e \<Rightarrow> Inl e
           | Inr td \<Rightarrow>
               (case new_Grid w h (replicate (nat (w * h))
                       \<lparr>state = Default, isOpen = False, wasClicked = False\<rparr>) of
                  Inl e \<Rightarrow> Inl e
                | Inr ts \<Rightarrow>
                    (let bc = length (filter (\<lambda>isBomb. isBomb) bombsArray)
                     in Inr \<lparr>boardState = NotStarted,
                             tileData = td,
                             tileState = ts,
                             bombCount = bc,
                             tilesLeftToOpenToWin = (w * h) - int bc,
                             tileChangedSignal = [],
                             boardStateChangedSignal = []\<rparr>))))"

text \<open>
  \<^verbatim>\<open>generate\<close>: \<^verbatim>\<open>new Array(width * height).fill(true, 0, bombs).fill(false, bombs)\<close>, shuffled.
  \<^verbatim>\<open>new Array(n)\<close> raises a RangeError unless \<open>n\<close> is an array length, an integer between 0 and
  \<open>2^32 - 1\<close>; \<^verbatim>\<open>fill\<close> clamps its bounds to the array and counts a negative bound from the end.
\<close>

definition fillBound :: "int \<Rightarrow> int \<Rightarrow> nat" where
  "fillBound len k = nat (if k < 0 then max (len + k) 0 else min k len)"

definition generate :: "int \<Rightarrow> int \<Rightarrow> int \<Rightarrow> (nat \<Rightarrow> nat) \<Rightarrow> error + MinesweeperBoard" where
  "generate w h bombs rnd =
     (if w * h < 0 \<or> w * h > 4294967295 then Inl RangeError
      else let len = nat (w * h);
               bombsArray = replicate (fillBound (w * h) bombs) True
                          @ replicate (len - fillBound (w * h) bombs) False
           in constructor w h (shuffleArray rnd bombsArray))"

section \<open>Game engine\<close>

text \<open>The setter of \<^verbatim>\<open>boardState\<close> stores the state and emits it.\<close>

definition set_boardState :: "BoardState \<Rightarrow> MinesweeperBoard \<Rightarrow> MinesweeperBoard" where
  "set_boardState newState b =
     b\<lparr>boardState := newState,
       boardStateChangedSignal := boardStateChangedSignal b @ [newState]\<rparr>"

fun checkWin_loop :: "Point list \<Rightarrow> MinesweeperBoard \<Rightarrow> result" where
  "checkWin_loop [] b = Inr b"
| "checkWin_loop (point # rest) b =
     (case get (tileData b) point of
        Inl e \<Rightarrow> Inl (e, b)
      | Inr td \<Rightarrow>
          if td \<noteq> BombTile then checkWin_loop rest b
          else (case get (tileState b) point of
                  Inl e \<Rightarrow> Inl (e, b)
                | Inr ts \<Rightarrow>
                    if state ts = Flag then checkWin_loop rest b
                    else checkWin_loop rest
                           (b\<lparr>tileState := writeBack (tileState b) point (ts\<lparr>state := Flag\<rparr>),
                              tileChangedSignal := tileChangedSignal b @ [point]\<rparr>)))"

definition checkWin :: "MinesweeperBoard \<Rightarrow> result" where
  "checkWin b =
     (if \<not> tilesLeftToOpenToWin b \<ge> 0
        then Inl (AssertionFailed ''This number should never be negative'', b)
      else if tilesLeftToOpenToWin b \<noteq> 0 then Inr b
      else case checkWin_loop (points (tileData b)) b of
             Inl x \<Rightarrow> Inl x
           | Inr b' \<Rightarrow> Inr (set_boardState Won b'))"

definition changeTileState :: "Point \<Rightarrow> MinesweeperBoard \<Rightarrow> result" where
  "changeTileState point b =
     (let b1 = (if boardState b = NotStarted then set_boardState Active b else b)
      in if boardState b1 \<noteq> Active then Inr b1
         else case get (tileState b1) point of
                Inl e \<Rightarrow> Inl (e, b1)
              | Inr ts \<Rightarrow>
                  if isOpen ts then Inr b1
                  else Inr (b1\<lparr>tileState := writeBack (tileState b1) point
                                   (ts\<lparr>state := (case state ts of Default \<Rightarrow> Flag
                                                                  | Flag \<Rightarrow> Default)\<rparr>),
                               tileChangedSignal := tileChangedSignal b1 @ [point]\<rparr>))"

text \<open>
  \<^verbatim>\<open>setTileOpen\<close> and its loop over the eight-way neighbours. The loop passes the board that
  each recursive call leaves to the next one.
\<close>

function setTileOpen :: "Point \<Rightarrow> bool \<Rightarrow> MinesweeperBoard \<Rightarrow> result"
  and setTileOpen_neighbors :: "Point list \<Rightarrow> MinesweeperBoard \<Rightarrow> result" where
  "setTileOpen point clicked b =
     (case get (tileState b) point of
        Inl e \<Rightarrow> Inl (e, b)
      | Inr ts \<Rightarrow>
         (case get (tileData b) point of
            Inl e \<Rightarrow> Inl (e, b)
          | Inr td \<Rightarrow>
             if isOpen ts then Inr b
             else if state ts \<noteq> Default then Inr b
             else let b1 = b\<lparr>tileState := writeBack (tileState b) point
                                  (ts\<lparr>isOpen := True, wasClicked := clicked\<rparr>),
                              tileChangedSignal := tileChangedSignal b @ [point]\<rparr>
                  in (case td of
                        BombTile \<Rightarrow> Inr b1
                      | EmptyTile n \<Rightarrow>
                          let b2 = b1\<lparr>tilesLeftToOpenToWin := tilesLeftToOpenToWin b1 - 1\<rparr>
                          in if n \<noteq> 0 then Inr b2
                             else setTileOpen_neighbors (eightWayNeighbors point) b2)))"
| "setTileOpen_neighbors [] b = Inr b"
| "setTileOpen_neighbors (neighborPoint # rest) b =
     (if \<not> isInBounds (tileData b) neighborPoint then setTileOpen_neighbors rest b
      else case setTileOpen neighborPoint False b of
             Inl x \<Rightarrow> Inl x
           | Inr b' \<Rightarrow> setTileOpen_neighbors rest b')"
  by pat_completeness auto


fun openAll :: "Point list \<Rightarrow> MinesweeperBoard \<Rightarrow> result" where
  "openAll [] b = Inr b"
| "openAll (neighborPoint # rest) b =
     (case setTileOpen neighborPoint True b of
        Inl x \<Rightarrow> Inl x
      | Inr b' \<Rightarrow> openAll rest b')"

fun handleLose_loop :: "Point list \<Rightarrow> MinesweeperBoard \<Rightarrow> result" where
  "handleLose_loop [] b = Inr b"
| "handleLose_loop (point # rest) b =
     (case get (tileData b) point of
        Inl e \<Rightarrow> Inl (e, b)
      | Inr td \<Rightarrow>
         (case get (tileState b) point of
            Inl e \<Rightarrow> Inl (e, b)
          | Inr ts \<Rightarrow>
              let isUnflaggedBomb = (td = BombTile \<and> state ts = Default);
                  isIncorrectFlag = (td \<noteq> BombTile \<and> state ts = Flag)
              in if \<not> isUnflaggedBomb \<and> \<not> isIncorrectFlag then handleLose_loop rest b
                 else handleLose_loop rest
                        (b\<lparr>tileState := writeBack (tileState b) point (ts\<lparr>isOpen := True\<rparr>),
                           tileChangedSignal := tileChangedSignal b @ [point]\<rparr>)))"

definition handleLose :: "MinesweeperBoard \<Rightarrow> result" where
  "handleLose b =
     (case handleLose_loop (points (tileData b)) b of
        Inl x \<Rightarrow> Inl x
      | Inr b' \<Rightarrow> Inr (set_boardState Lost b'))"

definition openTile :: "Point \<Rightarrow> MinesweeperBoard \<Rightarrow> result" where
  "openTile point b =
     (case get (tileState b) point of
        Inl e \<Rightarrow> Inl (e, b)
      | Inr ts \<Rightarrow>
          if state ts \<noteq> Default then Inr b
          else (case setTileOpen point True b of
                  Inl x \<Rightarrow> Inl x
                | Inr b1 \<Rightarrow>
                   (case get (tileData b1) point of
                      Inl e \<Rightarrow> Inl (e, b1)
                    | Inr td \<Rightarrow> if td = BombTile then handleLose b1 else checkWin b1)))"

text \<open>\<^verbatim>\<open>Array.prototype.filter\<close> with a callback that may throw.\<close>

fun filterE :: "('a \<Rightarrow> error + bool) \<Rightarrow> 'a list \<Rightarrow> error + 'a list" where
  "filterE f [] = Inr []"
| "filterE f (x # xs) =
     (case f x of
        Inl e \<Rightarrow> Inl e
      | Inr keep \<Rightarrow>
         (case filterE f xs of
            Inl e \<Rightarrow> Inl e
          | Inr ys \<Rightarrow> Inr (if keep then x # ys else ys)))"

text \<open>The second loop of \<^verbatim>\<open>openNeighbors\<close>: is one of the opened neighbours a bomb?\<close>

fun anyBomb :: "Point list \<Rightarrow> MinesweeperBoard \<Rightarrow> error + bool" where
  "anyBomb [] b = Inr False"
| "anyBomb (neighborPoint # rest) b =
     (case get (tileData b) neighborPoint of
        Inl e \<Rightarrow> Inl e
      | Inr neighborTileData \<Rightarrow>
          if neighborTileData = BombTile then Inr True else anyBomb rest b)"

definition openNeighbors :: "Point \<Rightarrow> MinesweeperBoard \<Rightarrow> result" where
  "openNeighbors point b =
     (case get (tileState b) point of
        Inl e \<Rightarrow> Inl (e, b)
      | Inr ts \<Rightarrow>
          if \<not> isOpen ts then Inr b
          else (case get (tileData b) point of
             Inl e \<Rightarrow> Inl (e, b)
           | Inr td \<Rightarrow>
              (case td of
                 BombTile \<Rightarrow> Inl (AssertionFailed
                   ''Bomb tile can't be open, while the game is still running and you can click stuff'', b)
               | EmptyTile k \<Rightarrow>
                  let neighbors = filter (isInBounds (tileData b)) (eightWayNeighbors point)
                  in (case filterE (\<lambda>q. case get (tileState b) q of
                                Inl e \<Rightarrow> Inl e
                              | Inr nts \<Rightarrow> Inr (\<not> isOpen nts \<and> state nts = Flag)) neighbors of
                        Inl e \<Rightarrow> Inl (e, b)
                      | Inr flagNeighbors \<Rightarrow>
                          if length flagNeighbors \<noteq> k then Inr b
                          else (case filterE (\<lambda>q. case get (tileState b) q of
                                        Inl e \<Rightarrow> Inl e
                                      | Inr nts \<Rightarrow> Inr (\<not> isOpen nts \<and> state nts \<noteq> Flag))
                                      neighbors of
                                  Inl e \<Rightarrow> Inl (e, b)
                                | Inr neighborsToOpen \<Rightarrow>
                                   (case openAll neighborsToOpen b of
                                      Inl x \<Rightarrow> Inl x
                                    | Inr b1 \<Rightarrow>
                                       (case anyBomb neighborsToOpen b1 of
                                          Inl e \<Rightarrow> Inl (e, b1)
                                        | Inr True \<Rightarrow> handleLose b1
                                        | Inr False \<Rightarrow> checkWin b1)))))))"

definition clickTile :: "Point \<Rightarrow> MinesweeperBoard \<Rightarrow> result" where
  "clickTile point b =
     (let b1 = (if boardState b = NotStarted then set_boardState Active b else b)
      in if boardState b1 \<noteq> Active then Inr b1
         else case get (tileState b1) point of
                Inl e \<Rightarrow> Inl (e, b1)
              | Inr ts \<Rightarrow> if isOpen ts then openNeighbors point b1 else openTile point b1)"

text \<open>
  The external driver: a sequence of calls on one board. A call that throws leaves the board
  as mutated so far, and the driver goes on with it.
\<close>

datatype Op = Click Point | ToggleFlag Point

definition after :: "result \<Rightarrow> MinesweeperBoard" where
  "after r = (case r of Inl (e, b) \<Rightarrow> b | Inr b \<Rightarrow> b)"

fun play :: "Op list \<Rightarrow> MinesweeperBoard \<Rightarrow> MinesweeperBoard" where
  "play [] b = b"
| "play (Click point # ops) b = play ops (after (clickTile point b))"
| "play (ToggleFlag point # ops) b = play ops (after (changeTileState point b))"

section \<open>Well-formed grids and boards\<close>

text \<open>
  What the constructors of \<^verbatim>\<open>Grid\<close> and \<^verbatim>\<open>MinesweeperBoard\<close> establish: positive dimensions,
  an array of \<^verbatim>\<open>width * height\<close> cells, and two grids of the same dimensions.
\<close>

definition wf_grid :: "'a Grid \<Rightarrow> bool" where
  "wf_grid g \<longleftrightarrow> 0 < width g \<and> 0 < height g \<and> int (length (array g)) = width g * height g"

definition wf_board :: "MinesweeperBoard \<Rightarrow> bool" where
  "wf_board b \<longleftrightarrow>
     wf_grid (tileData b) \<and> wf_grid (tileState b) \<and>
     width (tileState b) = width (tileData b) \<and> height (tileState b) = height (tileData b)"

text \<open>The row-major index of a point, the value of \<^verbatim>\<open>pointToArrayIndex\<close> inside the grid.\<close>

definition indexOf :: "'a Grid \<Rightarrow> Point \<Rightarrow> nat" where
  "indexOf g point = nat (px point + width g * py point)"

section \<open>Termination of the flood fill\<close>

definition closedCount :: "MinesweeperBoard \<Rightarrow> nat" where
  "closedCount b = length (filter (\<lambda>t. \<not> isOpen t) (array (tileState b)))"

lemma filter_update_le:
  "i < length xs \<Longrightarrow> P (xs ! i) \<Longrightarrow> \<not> P v \<Longrightarrow> length (filter P (xs[i := v])) < length (filter P xs)"
proof (induction xs arbitrary: i)
  case Nil then show ?case by simp
next
  case (Cons a xs)
  show ?case
  proof (cases i)
    case 0 with Cons.prems show ?thesis by simp
  next
    case (Suc k)
    with Cons.prems have "length (filter P (xs[k := v])) < length (filter P xs)"
      by (intro Cons.IH) auto
    with Suc show ?thesis by simp
  qed
qed

lemma get_InrD:
  "get g p = Inr v \<Longrightarrow> \<exists>i. pointToArrayIndex g p = Some i \<and> i < length (array g) \<and> v = array g ! i"
  by (auto simp: get_def getOrNull_def split: option.splits if_splits)

lemma closedCount_open:
  assumes "get (tileState b) p = Inr ts" "\<not> isOpen ts"
  shows "closedCount (b\<lparr>tileState := writeBack (tileState b) p (ts\<lparr>isOpen := True, wasClicked := c\<rparr>),
                        tileChangedSignal := sig\<rparr>) < closedCount b"
proof -
  from get_InrD[OF assms(1)] obtain i where i: "pointToArrayIndex (tileState b) p = Some i"
    "i < length (array (tileState b))" "ts = array (tileState b) ! i" by blast
  show ?thesis using i assms(2)
    by (simp add: closedCount_def writeBack_def filter_update_le)
qed


lemma closedCount_tilesLeft [simp]:
  "closedCount (b\<lparr>tilesLeftToOpenToWin := n\<rparr>) = closedCount b"
  by (simp add: closedCount_def)

lemma setTileOpen_closed_le:
  "setTileOpen_setTileOpen_neighbors_dom (Inl (p, c, b)) \<Longrightarrow> setTileOpen p c b = Inr b' \<Longrightarrow> closedCount b' \<le> closedCount b"
  "setTileOpen_setTileOpen_neighbors_dom (Inr (ps, b)) \<Longrightarrow> setTileOpen_neighbors ps b = Inr b'' \<Longrightarrow> closedCount b'' \<le> closedCount b"
proof (induct p c b and ps b arbitrary: b' and b'' rule: setTileOpen_setTileOpen_neighbors.pinduct)
  case (1 point clicked b)
  from "1.prems" "1.hyps"(1) obtain ts td where
    ts: "get (tileState b) point = Inr ts" and td: "get (tileData b) point = Inr td"
    by (auto simp: setTileOpen.psimps split: sum.splits)
  show ?case
  proof (cases "isOpen ts \<or> state ts \<noteq> Default")
    case True
    with "1.prems" "1.hyps"(1) ts td show ?thesis
      by (auto simp: setTileOpen.psimps split: if_splits)
  next
    case False
    define b1 where "b1 = b\<lparr>tileState := writeBack (tileState b) point
                                  (ts\<lparr>isOpen := True, wasClicked := clicked\<rparr>),
                              tileChangedSignal := tileChangedSignal b @ [point]\<rparr>"
    have lt: "closedCount b1 < closedCount b"
      unfolding b1_def using ts False by (intro closedCount_open) auto
    show ?thesis
    proof (cases td)
      case BombTile
      with "1.prems" "1.hyps"(1) ts td False lt show ?thesis
        by (auto simp: setTileOpen.psimps b1_def)
    next
      case (EmptyTile n)
      define b2 where "b2 = b1\<lparr>tilesLeftToOpenToWin := tilesLeftToOpenToWin b1 - 1\<rparr>"
      show ?thesis
      proof (cases "n = 0")
        case True
        with "1.prems" "1.hyps"(1) ts td False EmptyTile
        have r: "setTileOpen_neighbors (eightWayNeighbors point) b2 = Inr b'"
          by (simp add: setTileOpen.psimps b1_def b2_def Let_def)
        have "closedCount b' \<le> closedCount b2"
          using "1.hyps"(2)[OF ts td _ _ b1_def EmptyTile b2_def _ r] False True by simp
        with lt show ?thesis by (simp add: b2_def)
      next
        case nz: False
        with "1.prems" "1.hyps"(1) ts td False EmptyTile lt show ?thesis
          by (auto simp: setTileOpen.psimps b1_def Let_def)
      qed
    qed
  qed
next
  case (2 b)
  then show ?case by (simp add: setTileOpen_neighbors.psimps)
next
  case (3 q rest b)
  show ?case
  proof (cases "isInBounds (tileData b) q")
    case False
    with "3.prems" "3.hyps"(1) have "setTileOpen_neighbors rest b = Inr b''"
      by (simp add: setTileOpen_neighbors.psimps)
    with "3.hyps"(2) False show ?thesis by simp
  next
    case True
    with "3.prems" "3.hyps"(1) obtain bm where
      m: "setTileOpen q False b = Inr bm" and r: "setTileOpen_neighbors rest bm = Inr b''"
      by (auto simp: setTileOpen_neighbors.psimps split: sum.splits)
    from "3.hyps"(3) True m have "closedCount bm \<le> closedCount b" by simp
    moreover from "3.hyps"(4) True m r have "closedCount b'' \<le> closedCount bm" by simp
    ultimately show ?thesis by simp
  qed
qed

termination setTileOpen
  apply (relation "inv_image (less_than <*lex*> less_than)
        (\<lambda>x. case x of Inl (p, c, b) \<Rightarrow> (closedCount b, 0)
                    | Inr (ps, b) \<Rightarrow> (closedCount b, Suc (length ps)))")
      apply (intro wf_inv_image wf_lex_prod wf_less_than)
     apply (simp add: closedCount_open)
    apply simp
   apply simp
  apply (auto dest: setTileOpen_closed_le(1))
  done

declare setTileOpen.simps [simp del]

section \<open>Points and indices\<close>

lemma inb_index_lt:
  assumes "wf_grid g" "isInBounds g p"
  shows "indexOf g p < length (array g)"
proof -
  from assms have w: "0 < width g" and x: "0 \<le> px p" "px p < width g"
    and y: "0 \<le> py p" "py p + 1 \<le> height g"
    and len: "int (length (array g)) = width g * height g"
    by (auto simp: wf_grid_def isInBounds_def)
  have "width g * (py p + 1) \<le> width g * height g"
    using w y(2) by (intro mult_left_mono) auto
  then have "px p + width g * py p < width g * height g"
    using x by (simp add: algebra_simps)
  moreover have "0 \<le> px p + width g * py p" using w x y by simp
  ultimately show ?thesis using len by (simp add: indexOf_def nat_less_iff)
qed

lemma pointToArrayIndex_inb:
  "isInBounds g p \<Longrightarrow> pointToArrayIndex g p = Some (indexOf g p)"
  by (simp add: pointToArrayIndex_def indexOf_def)

lemma pointToArrayIndex_oob:
  "\<not> isInBounds g p \<Longrightarrow> pointToArrayIndex g p = None"
  by (simp add: pointToArrayIndex_def)

lemma getOrNull_inb:
  "wf_grid g \<Longrightarrow> isInBounds g p \<Longrightarrow> getOrNull g p = Some (array g ! indexOf g p)"
  by (simp add: getOrNull_def pointToArrayIndex_inb inb_index_lt)

lemma getOrNull_oob: "\<not> isInBounds g p \<Longrightarrow> getOrNull g p = None"
  by (simp add: getOrNull_def pointToArrayIndex_oob)

lemma get_inb:
  "wf_grid g \<Longrightarrow> isInBounds g p \<Longrightarrow> get g p = Inr (array g ! indexOf g p)"
  by (simp add: get_def getOrNull_inb)

lemma get_oob: "\<not> isInBounds g p \<Longrightarrow> get g p = Inl (OutOfBounds p)"
  by (simp add: get_def getOrNull_oob)

lemma writeBack_inb:
  "isInBounds g p \<Longrightarrow> writeBack g p v = g\<lparr>array := (array g)[indexOf g p := v]\<rparr>"
  by (simp add: writeBack_def pointToArrayIndex_inb)

lemma indexOf_inj:
  assumes "0 < width g" "isInBounds g p" "isInBounds g q" "indexOf g p = indexOf g q"
  shows "p = q"
proof -
  from assms have x: "0 \<le> px p" "px p < width g" "0 \<le> px q" "px q < width g"
    and y: "0 \<le> py p" "0 \<le> py q" by (auto simp: isInBounds_def)
  have np: "0 \<le> px p + width g * py p" using assms(1) x y by simp
  have nq: "0 \<le> px q + width g * py q" using assms(1) x y by simp
  from assms(4) np nq have e: "px p + width g * py p = px q + width g * py q"
    unfolding indexOf_def by linarith
  have "(px p + width g * py p) mod width g = px p" using x by simp
  moreover have "(px q + width g * py q) mod width g = px q" using x by simp
  ultimately have ex: "px p = px q" using e by simp
  with e assms(1) have "py p = py q" by simp
  with ex show ?thesis by (simp add: Point.expand)
qed

lemma row_index:
  "map (\<lambda>p. nat (px p + int w * py p)) (map (\<lambda>x. Point (int x) (int h)) [0..<w]) = [w * h..<w * h + w]"
proof -
  have "nat (int x + int w * int h) = x + w * h" for x
    by (metis nat_int of_nat_add of_nat_mult)
  then have "map (\<lambda>p. nat (px p + int w * py p)) (map (\<lambda>x. Point (int x) (int h)) [0..<w])
      = map (\<lambda>x. x + w * h) [0..<w]" by (simp add: comp_def)
  also have "\<dots> = [w * h..<w + w * h]" by (rule map_add_upt)
  finally show ?thesis by (simp add: add.commute)
qed

lemma points_index:
  "map (\<lambda>p. nat (px p + int w * py p)) (concat (map (\<lambda>y. map (\<lambda>x. Point (int x) (int y)) [0..<w]) [0..<h])) = [0..<w * h]"
proof (induction h)
  case 0 show ?case by simp
next
  case (Suc h)
  have "[0..<w * Suc h] = [0..<w * h] @ [w * h..<w * h + w]"
    using upt_add_eq_append[of 0 "w * h" w] by (simp add: add.commute)
  then show ?case using Suc row_index[of w h] by (simp del: map_map)
qed

lemma map_indexOf_points:
  assumes "wf_grid g"
  shows "map (indexOf g) (points g) = [0..<length (array g)]"
proof -
  from assms have w: "int (nat (width g)) = width g" and
    len: "length (array g) = nat (width g) * nat (height g)"
    by (auto simp: wf_grid_def nat_mult_distrib dest: arg_cong[of _ _ nat])
  show ?thesis
    using points_index[of "nat (width g)" "nat (height g)"] w len
    by (simp add: points_def indexOf_def[abs_def])
qed

lemma point_in_rows:
  "a < w \<Longrightarrow> b < h \<Longrightarrow>
   Point (int a) (int b) \<in> set (concat (map (\<lambda>y. map (\<lambda>x. Point (int x) (int y)) [0..<w]) [0..<h]))"
proof -
  assume a: "a < w" and b: "b < h"
  have "Point (int a) (int b) \<in> (\<lambda>x. Point (int x) (int b)) ` {0..<w}"
    using a by (intro image_eqI[of _ _ a]) auto
  then have "\<exists>y\<in>{0..<h}. Point (int a) (int b) \<in> (\<lambda>x. Point (int x) (int y)) ` {0..<w}"
    using b by (intro bexI[of _ b]) auto
  then show ?thesis by simp
qed

lemma set_points: "set (points g) = {p. isInBounds g p}"
proof (intro set_eqI iffI)
  fix p assume "p \<in> set (points g)"
  then show "p \<in> {p. isInBounds g p}" by (auto simp: points_def isInBounds_def)
next
  fix p assume "p \<in> {p. isInBounds g p}"
  then have "0 \<le> px p" "px p < width g" "0 \<le> py p" "py p < height g"
    by (auto simp: isInBounds_def)
  then have a: "nat (px p) < nat (width g)" "nat (py p) < nat (height g)"
    and b: "p = Point (int (nat (px p))) (int (nat (py p)))" by auto
  have "Point (int (nat (px p))) (int (nat (py p))) \<in> set (points g)"
    unfolding points_def using a by (rule point_in_rows)
  with b show "p \<in> set (points g)" by simp
qed

lemma distinct_points: "wf_grid g \<Longrightarrow> distinct (points g)"
  using map_indexOf_points[of g] distinct_upt[of 0 "length (array g)"]
    distinct_map[of "indexOf g" "points g"] by simp

lemma length_points: "wf_grid g \<Longrightarrow> length (points g) = length (array g)"
  using arg_cong[OF map_indexOf_points[of g], of length] by simp

lemma get_writeBack:
  assumes "wf_grid g" "isInBounds g p"
  shows "get (writeBack g p v) q = (if q = p then Inr v else get g q)"
proof -
  let ?g = "g\<lparr>array := (array g)[indexOf g p := v]\<rparr>"
  have wb: "writeBack g p v = ?g" using assms(2) by (rule writeBack_inb)
  have wf': "wf_grid ?g" using assms(1) by (simp add: wf_grid_def)
  have inb: "isInBounds ?g = isInBounds g" by (simp add: isInBounds_def fun_eq_iff)
  have idx: "indexOf ?g = indexOf g" by (simp add: indexOf_def fun_eq_iff)
  show ?thesis
  proof (cases "isInBounds g q")
    case False
    then show ?thesis using assms(2) by (auto simp: wb get_oob inb)
  next
    case True
    have "q \<noteq> p \<Longrightarrow> indexOf g p \<noteq> indexOf g q"
      using indexOf_inj[of g p q] assms True by (auto simp: wf_grid_def)
    then show ?thesis
      using True assms inb_index_lt[OF assms] by (simp add: wb get_inb wf' inb idx)
  qed
qed

lemma wf_grid_writeBack: "wf_grid g \<Longrightarrow> wf_grid (writeBack g p v)"
  by (simp add: wf_grid_def writeBack_def split: option.splits)

lemma isInBounds_writeBack [simp]: "isInBounds (writeBack g p v) = isInBounds g"
  by (simp add: isInBounds_def writeBack_def fun_eq_iff split: option.splits)

lemma wf_board_inb: "wf_board b \<Longrightarrow> isInBounds (tileState b) = isInBounds (tileData b)"
  by (simp add: wf_board_def isInBounds_def fun_eq_iff)

section \<open>Example boards\<close>

definition board_1x1_bomb :: MinesweeperBoard where
  "board_1x1_bomb = projr (constructor 1 1 [True])"

definition board_2x1 :: MinesweeperBoard where
  "board_2x1 = projr (constructor 2 1 [True, False])"

definition board_3x1 :: MinesweeperBoard where
  "board_3x1 = projr (constructor 3 1 [True, False, False])"

definition board_3x3 :: MinesweeperBoard where
  "board_3x3 = projr (constructor 3 3 [False, False, False, False, True, False, False, False, False])"

section \<open>Terminal states\<close>

text \<open>
  Claim C7: \<^verbatim>\<open>won\<close> and \<^verbatim>\<open>lost\<close> are terminal. On a board in one of these states, every call of
  \<^verbatim>\<open>clickTile\<close> and of \<^verbatim>\<open>changeTileState\<close> (the flag toggle), at any point, returns normally and
  leaves the whole board as it was: no tile state, no counter, no board state and no
  notification changes.
\<close>

theorem terminal_states_noop:
  assumes "boardState b = Won \<or> boardState b = Lost"
  shows "clickTile point b = Inr b \<and> changeTileState point b = Inr b"
  using assms by (auto simp: clickTile_def changeTileState_def)

theorem terminal_states_noop_witness:
  "boardState (play [Click (Point 0 0)] board_2x1) = Lost \<and>
   clickTile (Point 1 0) (play [Click (Point 0 0)] board_2x1) = Inr (play [Click (Point 0 0)] board_2x1) \<and>
   changeTileState (Point 1 0) (play [Click (Point 0 0)] board_2x1) = Inr (play [Click (Point 0 0)] board_2x1)"
proof -
  have l: "boardState (play [Click (Point 0 0)] board_2x1) = Lost"
    unfolding board_2x1_def by code_simp
  then show ?thesis
    using terminal_states_noop[of "play [Click (Point 0 0)] board_2x1" "Point 1 0"] by simp
qed

section \<open>Toggling a flag\<close>

text \<open>
  Claim C9: for a point in bounds, on a board that is \<^verbatim>\<open>active\<close> or \<^verbatim>\<open>not_started\<close> (which first
  becomes \<^verbatim>\<open>active\<close>), \<^verbatim>\<open>changeTileState\<close> returns normally. If the tile is open, nothing else
  changes. Otherwise the tile's mark flips between \<^verbatim>\<open>default\<close> and \<^verbatim>\<open>flag\<close>, exactly one
  tile-changed notification, for that point, is emitted, and every other tile, the tile data
  and the counters stay as they were.
\<close>

theorem changeTileState_in_bounds:
  assumes wf: "wf_board b"
    and inb: "isInBounds (tileData b) point"
    and st: "boardState b = Active \<or> boardState b = NotStarted"
  shows "\<exists>ts b'. get (tileState b) point = Inr ts \<and> changeTileState point b = Inr b' \<and>
           boardState b' = Active \<and>
           (isOpen ts \<longrightarrow>
              b' = (if boardState b = NotStarted then set_boardState Active b else b)) \<and>
           (\<not> isOpen ts \<longrightarrow>
              get (tileState b') point =
                Inr (ts\<lparr>state := (if state ts = Default then Flag else Default)\<rparr>) \<and>
              (\<forall>q. q \<noteq> point \<longrightarrow> get (tileState b') q = get (tileState b) q) \<and>
              tileChangedSignal b' = tileChangedSignal b @ [point] \<and>
              tileData b' = tileData b \<and>
              tilesLeftToOpenToWin b' = tilesLeftToOpenToWin b \<and>
              bombCount b' = bombCount b)"
proof -
  from wf have wfs: "wf_grid (tileState b)" by (simp add: wf_board_def)
  from wf inb have inbs: "isInBounds (tileState b) point" by (simp add: wf_board_inb)
  define ts where "ts = array (tileState b) ! indexOf (tileState b) point"
  have g: "get (tileState b) point = Inr ts"
    unfolding ts_def using wfs inbs by (rule get_inb)
  have flip: "(case state ts of Default \<Rightarrow> Flag | Flag \<Rightarrow> Default)
                = (if state ts = Default then Flag else Default)"
    by (cases "state ts") auto
  show ?thesis
  proof (cases "boardState b = NotStarted")
    case True
    then show ?thesis using g wfs inbs
      by (auto simp: changeTileState_def set_boardState_def get_writeBack flip Let_def)
  next
    case False
    with st have "boardState b = Active" by simp
    then show ?thesis using g wfs inbs
      by (auto simp: changeTileState_def get_writeBack flip Let_def)
  qed
qed

theorem changeTileState_in_bounds_witness:
  "wf_board board_3x3 \<and> isInBounds (tileData board_3x3) (Point 1 1) \<and>
   boardState board_3x3 = NotStarted \<and>
   (\<exists>ts b'. get (tileState board_3x3) (Point 1 1) = Inr ts \<and>
      changeTileState (Point 1 1) board_3x3 = Inr b' \<and> \<not> isOpen ts \<and>
      get (tileState b') (Point 1 1) =
        Inr (ts\<lparr>state := (if state ts = Default then Flag else Default)\<rparr>) \<and>
      tileChangedSignal b' = tileChangedSignal board_3x3 @ [Point 1 1])"
proof -
  have h: "wf_board board_3x3" "isInBounds (tileData board_3x3) (Point 1 1)"
    "boardState board_3x3 = NotStarted"
    unfolding board_3x3_def by code_simp+
  have c: "\<not> isOpen (projr (get (tileState board_3x3) (Point 1 1)))"
    unfolding board_3x3_def by code_simp
  from changeTileState_in_bounds[OF h(1,2)] h(3) c show ?thesis
    using h by auto
qed

section \<open>Calls at a point outside the grid\<close>

text \<open>
  Claim C1 says that \<^verbatim>\<open>clickTile\<close> and \<^verbatim>\<open>changeTileState\<close> at a point outside the grid return
  normally and change nothing. On a board that is not yet started the click throws the
  out-of-bounds error of \<^verbatim>\<open>Grid.get\<close>, after the board has become \<^verbatim>\<open>active\<close>.
\<close>

theorem click_out_of_bounds_throws:
  "clickTile (Point 2 0) board_2x1 = Inl (OutOfBounds (Point 2 0), set_boardState Active board_2x1)
   \<and> boardState board_2x1 = NotStarted
   \<and> boardState (set_boardState Active board_2x1) = Active"
  unfolding board_2x1_def by code_simp

text \<open>
  Claim C1 as amended: at a point outside the grid, both calls are no-ops on a board that is
  \<^verbatim>\<open>won\<close> or \<^verbatim>\<open>lost\<close>; on a board that is \<^verbatim>\<open>not_started\<close> or \<^verbatim>\<open>active\<close> they throw the
  out-of-bounds error of \<^verbatim>\<open>Grid.get\<close>. In both cases no tile state, no counter and no
  tile-changed notification changes; the board state changes only from \<^verbatim>\<open>not_started\<close> to
  \<^verbatim>\<open>active\<close>, before the error is raised.
\<close>

theorem call_out_of_bounds:
  assumes wf: "wf_board b" and oob: "\<not> isInBounds (tileData b) point"
  shows "clickTile point b =
           (if boardState b = Won \<or> boardState b = Lost then Inr b
            else Inl (OutOfBounds point,
                      if boardState b = NotStarted then set_boardState Active b else b))
       \<and> changeTileState point b = clickTile point b
       \<and> tileState (after (clickTile point b)) = tileState b
       \<and> tileData (after (clickTile point b)) = tileData b
       \<and> tilesLeftToOpenToWin (after (clickTile point b)) = tilesLeftToOpenToWin b
       \<and> bombCount (after (clickTile point b)) = bombCount b
       \<and> tileChangedSignal (after (clickTile point b)) = tileChangedSignal b"
proof -
  from wf oob have o: "\<not> isInBounds (tileState b) point" by (simp add: wf_board_inb)
  then have g: "get (tileState b) point = Inl (OutOfBounds point)" by (rule get_oob)
  show ?thesis
    by (cases "boardState b")
       (simp_all add: clickTile_def changeTileState_def set_boardState_def g after_def)
qed

theorem call_out_of_bounds_witness:
  "wf_board board_2x1 \<and> \<not> isInBounds (tileData board_2x1) (Point 2 0) \<and>
   changeTileState (Point 2 0) board_2x1 = clickTile (Point 2 0) board_2x1 \<and>
   tileState (after (clickTile (Point 2 0) board_2x1)) = tileState board_2x1"
proof -
  have h: "wf_board board_2x1" "\<not> isInBounds (tileData board_2x1) (Point 2 0)"
    unfolding board_2x1_def by code_simp+
  from call_out_of_bounds[OF h] h show ?thesis by blast
qed

section \<open>Cells of a well-formed board\<close>

text \<open>The cell of a point in bounds: what \<^verbatim>\<open>get\<close> returns there.\<close>

definition cell :: "'a Grid \<Rightarrow> Point \<Rightarrow> 'a" where
  "cell g point = array g ! indexOf g point"

definition isPointInBounds :: "MinesweeperBoard \<Rightarrow> Point \<Rightarrow> bool" where
  "isPointInBounds b point = isInBounds (tileData b) point"

text \<open>What no operation on tiles touches.\<close>

definition frame :: "MinesweeperBoard \<Rightarrow> MinesweeperBoard \<Rightarrow> bool" where
  "frame b b' \<longleftrightarrow>
     boardState b' = boardState b \<and> tileData b' = tileData b \<and> bombCount b' = bombCount b \<and>
     boardStateChangedSignal b' = boardStateChangedSignal b \<and>
     width (tileState b') = width (tileState b) \<and>
     height (tileState b') = height (tileState b) \<and>
     length (array (tileState b')) = length (array (tileState b))"

text \<open>
  \<open>opens b ps b'\<close>: board \<open>b'\<close> is board \<open>b\<close> after the tiles at \<open>ps\<close>, all different, closed and
  unflagged in \<open>b\<close>, were opened in this order: each is open in \<open>b'\<close>, each was notified once,
  the counter went down by one for each of them that is not a bomb, and no other tile changed.
\<close>

definition opens :: "MinesweeperBoard \<Rightarrow> Point list \<Rightarrow> MinesweeperBoard \<Rightarrow> bool" where
  "opens b ps b' \<longleftrightarrow>
     frame b b' \<and> distinct ps \<and>
     (\<forall>p \<in> set ps. isPointInBounds b p \<and>
        \<not> isOpen (cell (tileState b) p) \<and> state (cell (tileState b) p) = Default \<and>
        isOpen (cell (tileState b') p) \<and> state (cell (tileState b') p) = Default) \<and>
     (\<forall>p. isPointInBounds b p \<and> p \<notin> set ps \<longrightarrow>
        cell (tileState b') p = cell (tileState b) p) \<and>
     tileChangedSignal b' = tileChangedSignal b @ ps \<and>
     tilesLeftToOpenToWin b' =
       tilesLeftToOpenToWin b - int (length (filter (\<lambda>p. cell (tileData b) p \<noteq> BombTile) ps))"

lemma get_cell: "wf_grid g \<Longrightarrow> isInBounds g p \<Longrightarrow> get g p = Inr (cell g p)"
  by (simp add: cell_def get_inb)

lemma getOrNull_cell: "wf_grid g \<Longrightarrow> isInBounds g p \<Longrightarrow> getOrNull g p = Some (cell g p)"
  by (simp add: cell_def getOrNull_inb)

lemma cell_writeBack:
  assumes "wf_grid g" "isInBounds g p" "isInBounds g q"
  shows "cell (writeBack g p v) q = (if q = p then v else cell g q)"
proof -
  have "get (writeBack g p v) q = Inr (cell (writeBack g p v) q)"
    using assms by (intro get_cell wf_grid_writeBack) auto
  moreover have "get g q = Inr (cell g q)" using assms by (intro get_cell)
  ultimately show ?thesis using get_writeBack[OF assms(1,2), of v q] by (auto split: if_splits)
qed

lemma width_writeBack [simp]: "width (writeBack g p v) = width g"
  and height_writeBack [simp]: "height (writeBack g p v) = height g"
  and length_writeBack [simp]: "length (array (writeBack g p v)) = length (array g)"
  by (simp_all add: writeBack_def split: option.splits)

lemma wf_board_tileState:
  "wf_board b \<Longrightarrow> wf_grid (tileState b)" and
  wf_board_tileData: "wf_board b \<Longrightarrow> wf_grid (tileData b)"
  by (simp_all add: wf_board_def)

lemma frame_refl: "frame b b"
  by (simp add: frame_def)

lemma frame_trans: "frame b b' \<Longrightarrow> frame b' b'' \<Longrightarrow> frame b b''"
  by (simp add: frame_def)

lemma frame_wf: "frame b b' \<Longrightarrow> wf_board b \<Longrightarrow> wf_board b'"
  by (simp add: frame_def wf_board_def wf_grid_def)

lemma frame_inb: "frame b b' \<Longrightarrow> isPointInBounds b' = isPointInBounds b"
  by (simp add: frame_def isPointInBounds_def fun_eq_iff)

lemma opens_refl: "opens b [] b"
  by (simp add: opens_def frame_refl)

lemma opens_wf: "opens b ps b' \<Longrightarrow> wf_board b \<Longrightarrow> wf_board b'"
  by (auto simp: opens_def intro: frame_wf)

lemma opens_trans:
  assumes 1: "opens b ps b'" and 2: "opens b' qs b''"
  shows "opens b (ps @ qs) b''"
proof -
  from 1 have f1: "frame b b'" by (simp add: opens_def)
  from 2 have f2: "frame b' b''" by (simp add: opens_def)
  have inb: "isPointInBounds b' = isPointInBounds b" using f1 by (rule frame_inb)
  have td: "tileData b' = tileData b" using f1 by (simp add: frame_def)
  have disj: "set ps \<inter> set qs = {}" using 1 2 by (auto simp: opens_def)
  have keep1: "\<And>p. p \<in> set qs \<Longrightarrow> cell (tileState b') p = cell (tileState b) p"
    using 1 2 disj inb by (auto simp: opens_def)
  have keep2: "\<And>p. p \<in> set ps \<Longrightarrow> cell (tileState b'') p = cell (tileState b') p"
    using 1 2 disj inb by (auto simp: opens_def)
  show ?thesis
    unfolding opens_def
  proof (intro conjI ballI allI impI)
    show "frame b b''" using f1 f2 by (rule frame_trans)
    show "distinct (ps @ qs)" using 1 2 disj by (simp add: opens_def)
    show "tileChangedSignal b'' = tileChangedSignal b @ ps @ qs"
      using 1 2 by (simp add: opens_def)
    show "tilesLeftToOpenToWin b'' = tilesLeftToOpenToWin b -
        int (length (filter (\<lambda>p. cell (tileData b) p \<noteq> BombTile) (ps @ qs)))"
      using 1 2 td by (simp add: opens_def)
  next
    fix p assume "p \<in> set (ps @ qs)"
    then consider "p \<in> set ps" | "p \<in> set qs" by auto
    then show "isPointInBounds b p" using 1 2 inb by cases (auto simp: opens_def)
  next
    fix p assume "p \<in> set (ps @ qs)"
    then consider "p \<in> set ps" | "p \<in> set qs" by auto
    then show "\<not> isOpen (cell (tileState b) p)"
      using 1 2 keep1 by cases (auto simp: opens_def)
  next
    fix p assume "p \<in> set (ps @ qs)"
    then consider "p \<in> set ps" | "p \<in> set qs" by auto
    then show "state (cell (tileState b) p) = Default"
      using 1 2 keep1 by cases (auto simp: opens_def)
  next
    fix p assume "p \<in> set (ps @ qs)"
    then consider "p \<in> set ps" | "p \<in> set qs" by auto
    then show "isOpen (cell (tileState b'') p)"
      using 1 2 keep2 by cases (auto simp: opens_def)
  next
    fix p assume "p \<in> set (ps @ qs)"
    then consider "p \<in> set ps" | "p \<in> set qs" by auto
    then show "state (cell (tileState b'') p) = Default"
      using 1 2 keep2 by cases (auto simp: opens_def)
  next
    fix p assume "isPointInBounds b p \<and> p \<notin> set (ps @ qs)"
    then show "cell (tileState b'') p = cell (tileState b) p"
      using 1 2 inb by (auto simp: opens_def)
  qed
qed

section \<open>The flood fill as a set of opened tiles\<close>

text \<open>
  The true number of bombs around a point: its eight-way neighbours that are in bounds and
  hold a bomb.
\<close>

definition trueBombNeighbors :: "MinesweeperBoard \<Rightarrow> Point \<Rightarrow> nat" where
  "trueBombNeighbors b point =
     length (filter (\<lambda>q. isPointInBounds b q \<and> get (tileData b) q = Inr BombTile)
                    (eightWayNeighbors point))"

definition data_ok :: "MinesweeperBoard \<Rightarrow> bool" where
  "data_ok b \<longleftrightarrow>
     (\<forall>p k. isPointInBounds b p \<and> get (tileData b) p = Inr (EmptyTile k)
        \<longrightarrow> k = trueBombNeighbors b p)"

lemma data_ok_zero:
  assumes "data_ok b" "wf_board b" "isPointInBounds b p" "cell (tileData b) p = EmptyTile 0"
    "q \<in> set (eightWayNeighbors p)" "isPointInBounds b q"
  shows "cell (tileData b) q \<noteq> BombTile"
proof
  assume bomb: "cell (tileData b) q = BombTile"
  have "get (tileData b) p = Inr (EmptyTile 0)"
    using assms(2,3,4) by (simp add: get_cell wf_board_tileData isPointInBounds_def)
  with assms(1,3) have z: "trueBombNeighbors b p = 0" by (auto simp: data_ok_def)
  have "get (tileData b) q = Inr BombTile"
    using assms(2,6) bomb by (simp add: get_cell wf_board_tileData isPointInBounds_def)
  with assms(5,6) have "q \<in> set (filter (\<lambda>q. isPointInBounds b q \<and> get (tileData b) q = Inr BombTile)
                    (eightWayNeighbors p))" by simp
  with z show False unfolding trueBombNeighbors_def by (metis length_0_conv empty_iff set_empty)
qed

lemma setTileOpen_wf:
  assumes wf: "wf_board b" and inb: "isPointInBounds b p"
  shows "setTileOpen p c b =
     (if isOpen (cell (tileState b) p) \<or> state (cell (tileState b) p) \<noteq> Default then Inr b
      else case cell (tileData b) p of
             BombTile \<Rightarrow>
               Inr (b\<lparr>tileState := writeBack (tileState b) p
                        ((cell (tileState b) p)\<lparr>isOpen := True, wasClicked := c\<rparr>),
                      tileChangedSignal := tileChangedSignal b @ [p]\<rparr>)
           | EmptyTile n \<Rightarrow>
               if n \<noteq> 0
               then Inr (b\<lparr>tileState := writeBack (tileState b) p
                        ((cell (tileState b) p)\<lparr>isOpen := True, wasClicked := c\<rparr>),
                      tileChangedSignal := tileChangedSignal b @ [p],
                      tilesLeftToOpenToWin := tilesLeftToOpenToWin b - 1\<rparr>)
               else setTileOpen_neighbors (eightWayNeighbors p)
                     (b\<lparr>tileState := writeBack (tileState b) p
                        ((cell (tileState b) p)\<lparr>isOpen := True, wasClicked := c\<rparr>),
                      tileChangedSignal := tileChangedSignal b @ [p],
                      tilesLeftToOpenToWin := tilesLeftToOpenToWin b - 1\<rparr>))"
proof -
  have 1: "get (tileState b) p = Inr (cell (tileState b) p)"
    using wf inb by (simp add: get_cell wf_board_tileState wf_board_inb isPointInBounds_def)
  have 2: "get (tileData b) p = Inr (cell (tileData b) p)"
    using wf inb by (simp add: get_cell wf_board_tileData isPointInBounds_def)
  show ?thesis
    by (subst setTileOpen.simps) (simp add: 1 2 Let_def split: TileData.splits)
qed

lemma open_one:
  assumes wf: "wf_board b" and inb: "isPointInBounds b p"
    and closed: "\<not> isOpen (cell (tileState b) p)"
    and dflt: "state (cell (tileState b) p) = Default"
    and tl: "n = tilesLeftToOpenToWin b - (if cell (tileData b) p = BombTile then 0 else 1)"
  shows "opens b [p] (b\<lparr>tileState := writeBack (tileState b) p
                        ((cell (tileState b) p)\<lparr>isOpen := True, wasClicked := c\<rparr>),
                      tileChangedSignal := tileChangedSignal b @ [p],
                      tilesLeftToOpenToWin := n\<rparr>)"
proof -
  have wfs: "wf_grid (tileState b)" using wf by (rule wf_board_tileState)
  have inbs: "isInBounds (tileState b) p"
    using wf inb by (simp add: wf_board_inb isPointInBounds_def)
  have inbq: "isPointInBounds b q \<Longrightarrow> isInBounds (tileState b) q" for q
    using wf by (simp add: wf_board_inb isPointInBounds_def)
  show ?thesis
    unfolding opens_def
    using inb closed dflt tl
    by (auto simp: frame_def cell_writeBack[OF wfs inbs] inbq)
qed

lemma opens_frame: "opens b ps b' \<Longrightarrow> frame b b'"
  by (simp add: opens_def)

lemma frame_data_ok: "frame b b' \<Longrightarrow> data_ok b' = data_ok b"
  by (simp add: data_ok_def trueBombNeighbors_def isPointInBounds_def frame_def)

lemma frame_tileData: "frame b b' \<Longrightarrow> tileData b' = tileData b"
  by (simp add: frame_def)

lemma setTileOpen_opens_aux:
  "wf_board b \<longrightarrow> isPointInBounds b p \<longrightarrow>
     (\<exists>ps b'. setTileOpen p c b = Inr b' \<and> opens b ps b' \<and>
        (isOpen (cell (tileState b) p) \<or> state (cell (tileState b) p) \<noteq> Default
           \<longrightarrow> ps = [] \<and> b' = b) \<and>
        (\<not> isOpen (cell (tileState b) p) \<and> state (cell (tileState b) p) = Default
           \<longrightarrow> (\<exists>ps'. ps = p # ps')) \<and>
        (data_ok b \<longrightarrow> (\<forall>q \<in> set ps. q \<noteq> p \<longrightarrow> cell (tileData b) q \<noteq> BombTile)))"
  "wf_board b \<longrightarrow>
     (\<exists>ps b'. setTileOpen_neighbors qs b = Inr b' \<and> opens b ps b' \<and>
        (data_ok b \<and> (\<forall>q \<in> set qs. isPointInBounds b q \<longrightarrow> cell (tileData b) q \<noteq> BombTile)
           \<longrightarrow> (\<forall>q \<in> set ps. cell (tileData b) q \<noteq> BombTile)))"
proof (induct p c b and qs b rule: setTileOpen_setTileOpen_neighbors.induct)
  case (1 p c b)
  show ?case
  proof (intro impI)
    assume wf: "wf_board b" and inb: "isPointInBounds b p"
    let ?ts = "cell (tileState b) p"
    let ?td = "cell (tileData b) p"
    have g1: "get (tileState b) p = Inr ?ts"
      using wf inb by (simp add: get_cell wf_board_tileState wf_board_inb isPointInBounds_def)
    have g2: "get (tileData b) p = Inr ?td"
      using wf inb by (simp add: get_cell wf_board_tileData isPointInBounds_def)
    note eq = setTileOpen_wf[OF wf inb, of c]
    let ?G = "\<exists>ps b'. setTileOpen p c b = Inr b' \<and> opens b ps b' \<and>
        (isOpen ?ts \<or> state ?ts \<noteq> Default \<longrightarrow> ps = [] \<and> b' = b) \<and>
        (\<not> isOpen ?ts \<and> state ?ts = Default \<longrightarrow> (\<exists>ps'. ps = p # ps')) \<and>
        (data_ok b \<longrightarrow> (\<forall>q \<in> set ps. q \<noteq> p \<longrightarrow> cell (tileData b) q \<noteq> BombTile))"
    show ?G
    proof (cases "isOpen ?ts \<or> state ?ts \<noteq> Default")
      case True
      then have "setTileOpen p c b = Inr b" using eq by simp
      with True show ?thesis using opens_refl[of b] by (intro exI[of _ "[]"] exI[of _ b]) auto
    next
      case False
      then have closed: "\<not> isOpen ?ts" and dflt: "state ?ts = Default" by auto
      define b1 where "b1 = b\<lparr>tileState := writeBack (tileState b) p
                                  (?ts\<lparr>isOpen := True, wasClicked := c\<rparr>),
                              tileChangedSignal := tileChangedSignal b @ [p]\<rparr>"
      show ?thesis
      proof (cases "\<exists>n. ?td = EmptyTile n \<and> n = 0")
        case nonzero: False
        define n where "n = tilesLeftToOpenToWin b - (if ?td = BombTile then 0 else 1)"
        define b' where "b' = b1\<lparr>tilesLeftToOpenToWin := n\<rparr>"
        have o: "opens b [p] b'"
          using open_one[OF wf inb closed dflt n_def, of c] by (simp add: b'_def b1_def)
        have r: "setTileOpen p c b = Inr b'"
          using eq False nonzero by (cases ?td) (simp_all add: n_def b'_def b1_def)
        have "opens b [p] b' \<and>
          (isOpen ?ts \<or> state ?ts \<noteq> Default \<longrightarrow> [p] = [] \<and> b' = b) \<and>
          (\<not> isOpen ?ts \<and> state ?ts = Default \<longrightarrow> (\<exists>ps'. [p] = p # ps')) \<and>
          (data_ok b \<longrightarrow> (\<forall>q \<in> set [p]. q \<noteq> p \<longrightarrow> cell (tileData b) q \<noteq> BombTile))"
          using o False by simp
        with r show ?thesis by blast
      next
        case zero: True
        then have td: "?td = EmptyTile 0" by auto
        define b2 where "b2 = b1\<lparr>tilesLeftToOpenToWin := tilesLeftToOpenToWin b1 - 1\<rparr>"
        have o: "opens b [p] b2"
          using open_one[OF wf inb closed dflt, of "tilesLeftToOpenToWin b - 1" c] td
          by (simp add: b2_def b1_def)
        have wf2: "wf_board b2" using o wf by (rule opens_wf)
        have f2: "frame b b2" using o by (rule opens_frame)
        have td2: "tileData b2 = tileData b" using f2 by (rule frame_tileData)
        have e: "setTileOpen p c b = setTileOpen_neighbors (eightWayNeighbors p) b2"
          using eq False td by (simp add: b2_def b1_def)
        have nd: "\<not> state ?ts \<noteq> Default" using dflt by simp
        have nz: "\<not> (0::nat) \<noteq> 0" by simp
        note ih = "1"[OF g1 g2 closed nd b1_def td b2_def nz, rule_format, OF wf2]
        from ih obtain ps2 b' where r: "setTileOpen_neighbors (eightWayNeighbors p) b2 = Inr b'"
          and o2: "opens b2 ps2 b'"
          and d2: "data_ok b2 \<and> (\<forall>q \<in> set (eightWayNeighbors p).
                     isPointInBounds b2 q \<longrightarrow> cell (tileData b2) q \<noteq> BombTile)
                   \<longrightarrow> (\<forall>q \<in> set ps2. cell (tileData b2) q \<noteq> BombTile)"
          by blast
        have o3: "opens b (p # ps2) b'" using opens_trans[OF o o2] by simp
        have d3: "data_ok b \<longrightarrow> (\<forall>q \<in> set (p # ps2). q \<noteq> p \<longrightarrow> cell (tileData b) q \<noteq> BombTile)"
        proof
          assume ok: "data_ok b"
          then have "data_ok b2" using frame_data_ok[OF f2] by simp
          moreover have "\<forall>q \<in> set (eightWayNeighbors p).
                     isPointInBounds b2 q \<longrightarrow> cell (tileData b2) q \<noteq> BombTile"
            using data_ok_zero[OF ok wf inb td] frame_inb[OF f2] td2 by simp
          ultimately have "\<forall>q \<in> set ps2. cell (tileData b2) q \<noteq> BombTile" using d2 by blast
          then show "\<forall>q \<in> set (p # ps2). q \<noteq> p \<longrightarrow> cell (tileData b) q \<noteq> BombTile"
            using td2 by simp
        qed
        have "opens b (p # ps2) b' \<and>
          (isOpen ?ts \<or> state ?ts \<noteq> Default \<longrightarrow> p # ps2 = [] \<and> b' = b) \<and>
          (\<not> isOpen ?ts \<and> state ?ts = Default \<longrightarrow> (\<exists>ps'. p # ps2 = p # ps')) \<and>
          (data_ok b \<longrightarrow> (\<forall>q \<in> set (p # ps2). q \<noteq> p \<longrightarrow> cell (tileData b) q \<noteq> BombTile))"
          using o3 d3 False by simp
        with e r show ?thesis by (intro exI[of _ "p # ps2"] exI[of _ b']) simp
      qed
    qed
  qed
next
  case (2 b)
  show ?case using opens_refl[of b] by auto
next
  case (3 q rest b)
  show ?case
  proof (intro impI)
    assume wf: "wf_board b"
    let ?H = "\<lambda>qs b. data_ok b \<and> (\<forall>q \<in> set qs. isPointInBounds b q \<longrightarrow> cell (tileData b) q \<noteq> BombTile)"
    show "\<exists>ps b'. setTileOpen_neighbors (q # rest) b = Inr b' \<and> opens b ps b' \<and>
        (?H (q # rest) b \<longrightarrow> (\<forall>q \<in> set ps. cell (tileData b) q \<noteq> BombTile))"
    proof (cases "isInBounds (tileData b) q")
      case False
      note ih = "3"(1)[OF False, rule_format, OF wf]
      then obtain ps b' where r: "setTileOpen_neighbors rest b = Inr b'" and o: "opens b ps b'"
        and d: "?H rest b \<longrightarrow> (\<forall>q \<in> set ps. cell (tileData b) q \<noteq> BombTile)" by blast
      have e: "setTileOpen_neighbors (q # rest) b = Inr b'" using False r by simp
      have d': "?H (q # rest) b \<longrightarrow> (\<forall>q \<in> set ps. cell (tileData b) q \<noteq> BombTile)"
        using d by simp
      show ?thesis by (intro exI[of _ ps] exI[of _ b'] conjI e o d')
    next
      case True
      then have inb: "isPointInBounds b q" by (simp add: isPointInBounds_def)
      have nn: "\<not> \<not> isInBounds (tileData b) q" using True by simp
      note ih2 = "3"(2)[OF nn, rule_format, OF wf inb]
      then obtain ps1 bm where
        r1: "setTileOpen q False b = Inr bm" and o1: "opens b ps1 bm" and
        d1: "data_ok b \<longrightarrow> (\<forall>x \<in> set ps1. x \<noteq> q \<longrightarrow> cell (tileData b) x \<noteq> BombTile)"
        by blast
      have wfm: "wf_board bm" using o1 wf by (rule opens_wf)
      have fm: "frame b bm" using o1 by (rule opens_frame)
      note ih3 = "3"(3)[OF nn r1, rule_format, OF wfm]
      then obtain ps2 b' where
        r2: "setTileOpen_neighbors rest bm = Inr b'" and o2: "opens bm ps2 b'" and
        d2: "?H rest bm \<longrightarrow> (\<forall>q \<in> set ps2. cell (tileData bm) q \<noteq> BombTile)"
        by blast
      have e: "setTileOpen_neighbors (q # rest) b = Inr b'" using True r1 r2 by simp
      have o: "opens b (ps1 @ ps2) b'" using o1 o2 by (rule opens_trans)
      have d: "?H (q # rest) b \<longrightarrow> (\<forall>x \<in> set (ps1 @ ps2). cell (tileData b) x \<noteq> BombTile)"
      proof
        assume h: "?H (q # rest) b"
        then have "?H rest bm"
          using frame_data_ok[OF fm] frame_inb[OF fm] frame_tileData[OF fm] by simp
        with d2 have "\<forall>x \<in> set ps2. cell (tileData b) x \<noteq> BombTile"
          using frame_tileData[OF fm] by simp
        moreover have "\<forall>x \<in> set ps1. cell (tileData b) x \<noteq> BombTile"
        proof
          fix x assume x: "x \<in> set ps1"
          show "cell (tileData b) x \<noteq> BombTile"
          proof (cases "x = q")
            case True
            with h inb show ?thesis by simp
          next
            case False
            with d1 h x show ?thesis by blast
          qed
        qed
        ultimately show "\<forall>x \<in> set (ps1 @ ps2). cell (tileData b) x \<noteq> BombTile"
          by (simp add: ball_Un)
      qed
      show ?thesis by (intro exI[of _ "ps1 @ ps2"] exI[of _ b'] conjI e o d)
    qed
  qed
qed

section \<open>The reveal on loss and the flagging on win\<close>

definition loseCond :: "MinesweeperBoard \<Rightarrow> Point \<Rightarrow> bool" where
  "loseCond b p \<longleftrightarrow>
     (cell (tileData b) p = BombTile \<and> state (cell (tileState b) p) = Default) \<or>
     (cell (tileData b) p \<noteq> BombTile \<and> state (cell (tileState b) p) = Flag)"

definition winCond :: "MinesweeperBoard \<Rightarrow> Point \<Rightarrow> bool" where
  "winCond b p \<longleftrightarrow>
     cell (tileData b) p = BombTile \<and> state (cell (tileState b) p) \<noteq> Flag"

lemma board_gets:
  assumes "wf_board b" "isPointInBounds b p"
  shows "get (tileState b) p = Inr (cell (tileState b) p)"
    and "get (tileData b) p = Inr (cell (tileData b) p)"
    and "isInBounds (tileState b) p"
  using assms by (simp_all add: get_cell wf_board_tileState wf_board_tileData wf_board_inb
      isPointInBounds_def)

lemma write_tile:
  assumes wf: "wf_board b" and inb: "isPointInBounds b p"
    and b1: "b1 = b\<lparr>tileState := writeBack (tileState b) p v, tileChangedSignal := sig\<rparr>"
  shows "frame b b1" and "wf_board b1" and "tilesLeftToOpenToWin b1 = tilesLeftToOpenToWin b"
    and "tileChangedSignal b1 = sig"
    and "\<And>q. isPointInBounds b q \<Longrightarrow> cell (tileState b1) q = (if q = p then v else cell (tileState b) q)"
proof -
  show f: "frame b b1" by (simp add: b1 frame_def)
  show "wf_board b1" using f wf by (rule frame_wf)
  show "tilesLeftToOpenToWin b1 = tilesLeftToOpenToWin b" "tileChangedSignal b1 = sig"
    by (simp_all add: b1)
  fix q assume "isPointInBounds b q"
  then show "cell (tileState b1) q = (if q = p then v else cell (tileState b) q)"
    using board_gets(3)[OF wf] inb wf
    by (simp add: b1 cell_writeBack wf_board_tileState)
qed

lemma handleLose_loop_effect:
  assumes "wf_board b" "distinct ps" "\<forall>p \<in> set ps. isPointInBounds b p"
  shows "\<exists>b'. handleLose_loop ps b = Inr b' \<and> frame b b' \<and>
           tilesLeftToOpenToWin b' = tilesLeftToOpenToWin b \<and>
           (\<forall>q. isPointInBounds b q \<longrightarrow>
              cell (tileState b') q =
                (if q \<in> set ps \<and> loseCond b q then (cell (tileState b) q)\<lparr>isOpen := True\<rparr>
                 else cell (tileState b) q)) \<and>
           tileChangedSignal b' = tileChangedSignal b @ filter (loseCond b) ps"
  using assms
proof (induction ps arbitrary: b)
  case Nil
  show ?case by (simp add: frame_refl)
next
  case (Cons p ps)
  then have wf: "wf_board b" and inb: "isPointInBounds b p" and pn: "p \<notin> set ps"
    and dps: "distinct ps" and inps: "\<forall>q \<in> set ps. isPointInBounds b q" by auto
  note g = board_gets[OF wf inb]
  show ?case
  proof (cases "loseCond b p")
    case False
    then have "handleLose_loop (p # ps) b = handleLose_loop ps b"
      by (auto simp: g loseCond_def Let_def)
    moreover from Cons.IH[OF wf dps inps] obtain b' where
      "handleLose_loop ps b = Inr b'" "frame b b'"
      "tilesLeftToOpenToWin b' = tilesLeftToOpenToWin b"
      "\<forall>q. isPointInBounds b q \<longrightarrow> cell (tileState b') q =
          (if q \<in> set ps \<and> loseCond b q then (cell (tileState b) q)\<lparr>isOpen := True\<rparr>
           else cell (tileState b) q)"
      "tileChangedSignal b' = tileChangedSignal b @ filter (loseCond b) ps" by blast
    ultimately show ?thesis using False by (intro exI[of _ b']) auto
  next
    case True
    define b1 where "b1 = b\<lparr>tileState := writeBack (tileState b) p
                               ((cell (tileState b) p)\<lparr>isOpen := True\<rparr>),
                            tileChangedSignal := tileChangedSignal b @ [p]\<rparr>"
    note w = write_tile[OF wf inb b1_def]
    have e: "handleLose_loop (p # ps) b = handleLose_loop ps b1"
      using True by (auto simp: g loseCond_def Let_def b1_def)
    have inb1: "isPointInBounds b1 = isPointInBounds b" using w(1) by (rule frame_inb)
    have lc: "loseCond b1 q = loseCond b q" if "isPointInBounds b q" for q
      using that w(5)[OF that] frame_tileData[OF w(1)] by (simp add: loseCond_def)
    from Cons.IH[OF w(2) dps] inps inb1 obtain b' where
      r: "handleLose_loop ps b1 = Inr b'" and f: "frame b1 b'"
      and t: "tilesLeftToOpenToWin b' = tilesLeftToOpenToWin b1"
      and c: "\<forall>q. isPointInBounds b1 q \<longrightarrow> cell (tileState b') q =
          (if q \<in> set ps \<and> loseCond b1 q then (cell (tileState b1) q)\<lparr>isOpen := True\<rparr>
           else cell (tileState b1) q)"
      and s: "tileChangedSignal b' = tileChangedSignal b1 @ filter (loseCond b1) ps" by auto
    have fl: "filter (loseCond b1) ps = filter (loseCond b) ps"
      using inps lc by (intro filter_cong) auto
    have "\<forall>q. isPointInBounds b q \<longrightarrow> cell (tileState b') q =
          (if q \<in> set (p # ps) \<and> loseCond b q then (cell (tileState b) q)\<lparr>isOpen := True\<rparr>
           else cell (tileState b) q)"
    proof (intro allI impI)
      fix q assume q: "isPointInBounds b q"
      show "cell (tileState b') q =
          (if q \<in> set (p # ps) \<and> loseCond b q then (cell (tileState b) q)\<lparr>isOpen := True\<rparr>
           else cell (tileState b) q)"
        using c q inb1 lc[OF q] w(5)[OF q] pn True by auto
    qed
    then show ?thesis
      using e r frame_trans[OF w(1) f] t w(3) s w(4) fl True
      by (intro exI[of _ b']) auto
  qed
qed

lemma checkWin_loop_effect:
  assumes "wf_board b" "distinct ps" "\<forall>p \<in> set ps. isPointInBounds b p"
  shows "\<exists>b'. checkWin_loop ps b = Inr b' \<and> frame b b' \<and>
           tilesLeftToOpenToWin b' = tilesLeftToOpenToWin b \<and>
           (\<forall>q. isPointInBounds b q \<longrightarrow>
              cell (tileState b') q =
                (if q \<in> set ps \<and> winCond b q then (cell (tileState b) q)\<lparr>state := Flag\<rparr>
                 else cell (tileState b) q)) \<and>
           tileChangedSignal b' = tileChangedSignal b @ filter (winCond b) ps"
  using assms
proof (induction ps arbitrary: b)
  case Nil
  show ?case by (simp add: frame_refl)
next
  case (Cons p ps)
  then have wf: "wf_board b" and inb: "isPointInBounds b p" and pn: "p \<notin> set ps"
    and dps: "distinct ps" and inps: "\<forall>q \<in> set ps. isPointInBounds b q" by auto
  note g = board_gets[OF wf inb]
  show ?case
  proof (cases "winCond b p")
    case False
    then have "checkWin_loop (p # ps) b = checkWin_loop ps b"
      by (auto simp: g winCond_def)
    moreover from Cons.IH[OF wf dps inps] obtain b' where
      "checkWin_loop ps b = Inr b'" "frame b b'"
      "tilesLeftToOpenToWin b' = tilesLeftToOpenToWin b"
      "\<forall>q. isPointInBounds b q \<longrightarrow> cell (tileState b') q =
          (if q \<in> set ps \<and> winCond b q then (cell (tileState b) q)\<lparr>state := Flag\<rparr>
           else cell (tileState b) q)"
      "tileChangedSignal b' = tileChangedSignal b @ filter (winCond b) ps" by blast
    ultimately show ?thesis using False by (intro exI[of _ b']) auto
  next
    case True
    define b1 where "b1 = b\<lparr>tileState := writeBack (tileState b) p
                               ((cell (tileState b) p)\<lparr>state := Flag\<rparr>),
                            tileChangedSignal := tileChangedSignal b @ [p]\<rparr>"
    note w = write_tile[OF wf inb b1_def]
    have e: "checkWin_loop (p # ps) b = checkWin_loop ps b1"
      using True by (auto simp: g winCond_def b1_def)
    have inb1: "isPointInBounds b1 = isPointInBounds b" using w(1) by (rule frame_inb)
    have lc: "winCond b1 q = winCond b q" if "isPointInBounds b q" "q \<noteq> p" for q
      using that w(5)[OF that(1)] frame_tileData[OF w(1)] by (simp add: winCond_def)
    from Cons.IH[OF w(2) dps] inps inb1 obtain b' where
      r: "checkWin_loop ps b1 = Inr b'" and f: "frame b1 b'"
      and t: "tilesLeftToOpenToWin b' = tilesLeftToOpenToWin b1"
      and c: "\<forall>q. isPointInBounds b1 q \<longrightarrow> cell (tileState b') q =
          (if q \<in> set ps \<and> winCond b1 q then (cell (tileState b1) q)\<lparr>state := Flag\<rparr>
           else cell (tileState b1) q)"
      and s: "tileChangedSignal b' = tileChangedSignal b1 @ filter (winCond b1) ps" by auto
    have fl: "filter (winCond b1) ps = filter (winCond b) ps"
      using inps lc pn by (intro filter_cong) auto
    have "\<forall>q. isPointInBounds b q \<longrightarrow> cell (tileState b') q =
          (if q \<in> set (p # ps) \<and> winCond b q then (cell (tileState b) q)\<lparr>state := Flag\<rparr>
           else cell (tileState b) q)"
    proof (intro allI impI)
      fix q assume q: "isPointInBounds b q"
      show "cell (tileState b') q =
          (if q \<in> set (p # ps) \<and> winCond b q then (cell (tileState b) q)\<lparr>state := Flag\<rparr>
           else cell (tileState b) q)"
      proof (cases "q = p")
        case True
        with c q inb1 w(5)[OF q] pn \<open>winCond b p\<close> show ?thesis by auto
      next
        case False
        with c q inb1 lc[OF q False] w(5)[OF q] show ?thesis by auto
      qed
    qed
    then show ?thesis
      using e r frame_trans[OF w(1) f] t w(3) s w(4) fl True
      by (intro exI[of _ b']) auto
  qed
qed

section \<open>Loss\<close>

text \<open>
  The tiles that the claim names: a bomb that is not flagged, or an empty tile that is
  flagged.
\<close>

definition revealedOnLoss :: "MinesweeperBoard \<Rightarrow> Point \<Rightarrow> bool" where
  "revealedOnLoss b point =
     (case get (tileData b) point of
        Inl e \<Rightarrow> False
      | Inr td \<Rightarrow>
         (case get (tileState b) point of
            Inl e \<Rightarrow> False
          | Inr ts \<Rightarrow> (td = BombTile \<and> state ts \<noteq> Flag) \<or> (td \<noteq> BombTile \<and> state ts = Flag)))"

lemma revealedOnLoss_loseCond:
  "wf_board b \<Longrightarrow> isPointInBounds b p \<Longrightarrow> revealedOnLoss b p = loseCond b p"
  by (cases "state (cell (tileState b) p)") (auto simp: revealedOnLoss_def loseCond_def board_gets)

lemma points_board:
  assumes "wf_board b"
  shows "distinct (points (tileData b))" and "set (points (tileData b)) = {p. isPointInBounds b p}"
  using assms by (simp_all add: distinct_points wf_board_tileData set_points isPointInBounds_def)

lemma get_frame_oob:
  assumes "wf_board b" "frame b b'" "\<not> isPointInBounds b p"
  shows "get (tileState b') p = get (tileState b) p"
proof -
  have "\<not> isInBounds (tileState b) p" using assms(1,3) by (simp add: wf_board_inb isPointInBounds_def)
  moreover then have "\<not> isInBounds (tileState b') p" using assms(2) by (simp add: frame_def isInBounds_def)
  ultimately show ?thesis by (simp add: get_oob)
qed

text \<open>
  Claim C4: \<^verbatim>\<open>handleLose\<close>, which runs when a bomb tile has been opened, returns normally;
  it sets \<^verbatim>\<open>isOpen\<close> on exactly the tiles that are (bomb and not flagged) or (empty and
  flagged) and changes nothing else of any tile; it emits one tile-changed notification for
  each of these tiles, in row-major order, also for those that were open already; and the board
  state becomes \<^verbatim>\<open>lost\<close>, with its notification. Tile data and counters are unchanged.
\<close>

theorem handleLose_reveals:
  assumes wf: "wf_board b"
  shows "\<exists>b'. handleLose b = Inr b' \<and>
           boardState b' = Lost \<and>
           boardStateChangedSignal b' = boardStateChangedSignal b @ [Lost] \<and>
           tileChangedSignal b' =
             tileChangedSignal b @ filter (revealedOnLoss b) (points (tileData b)) \<and>
           (\<forall>p ts. get (tileState b) p = Inr ts \<longrightarrow>
              get (tileState b') p =
                Inr (if revealedOnLoss b p then ts\<lparr>isOpen := True\<rparr> else ts)) \<and>
           (\<forall>p e. get (tileState b) p = Inl e \<longrightarrow> get (tileState b') p = Inl e) \<and>
           tileData b' = tileData b \<and>
           tilesLeftToOpenToWin b' = tilesLeftToOpenToWin b \<and>
           bombCount b' = bombCount b"
proof -
  note pts = points_board[OF wf]
  from handleLose_loop_effect[OF wf pts(1)] pts(2) obtain b1 where
    r: "handleLose_loop (points (tileData b)) b = Inr b1" and f: "frame b b1"
    and t: "tilesLeftToOpenToWin b1 = tilesLeftToOpenToWin b"
    and c: "\<forall>q. isPointInBounds b q \<longrightarrow> cell (tileState b1) q =
          (if q \<in> set (points (tileData b)) \<and> loseCond b q
           then (cell (tileState b) q)\<lparr>isOpen := True\<rparr> else cell (tileState b) q)"
    and s: "tileChangedSignal b1 = tileChangedSignal b @ filter (loseCond b) (points (tileData b))"
    by auto
  have wf1: "wf_board b1" using f wf by (rule frame_wf)
  have inb1: "isPointInBounds b1 = isPointInBounds b" using f by (rule frame_inb)
  have fl: "filter (loseCond b) (points (tileData b)) = filter (revealedOnLoss b) (points (tileData b))"
    using pts(2) revealedOnLoss_loseCond[OF wf] by (intro filter_cong) auto
  have tiles: "get (tileState b1) p = Inr (if revealedOnLoss b p then ts\<lparr>isOpen := True\<rparr> else ts)"
    if g: "get (tileState b) p = Inr ts" for p ts
  proof -
    have inb: "isPointInBounds b p"
      using g get_oob[of "tileState b" p] wf by (auto simp: wf_board_inb isPointInBounds_def)
    then have "ts = cell (tileState b) p" using g board_gets(1)[OF wf inb] by simp
    moreover have "get (tileState b1) p = Inr (cell (tileState b1) p)"
      using board_gets(1)[OF wf1] inb inb1 by simp
    ultimately show ?thesis
      using c inb pts(2) revealedOnLoss_loseCond[OF wf inb] by simp
  qed
  have errs: "get (tileState b1) p = Inl e" if g: "get (tileState b) p = Inl e" for p e
  proof -
    have "\<not> isPointInBounds b p" using g board_gets(1)[OF wf, of p] by auto
    then show ?thesis using get_frame_oob[OF wf f] g by simp
  qed
  show ?thesis
    using r f t s fl tiles errs
    by (intro exI[of _ "set_boardState Lost b1"])
       (simp add: handleLose_def set_boardState_def frame_def)
qed

theorem handleLose_reveals_witness:
  "wf_board (play [ToggleFlag (Point 1 0)] board_3x3) \<and>
   (\<exists>b'. handleLose (play [ToggleFlag (Point 1 0)] board_3x3) = Inr b' \<and> boardState b' = Lost \<and>
      tileChangedSignal b' = [Point 1 0, Point 1 0, Point 1 1])"
proof -
  have h: "wf_board (play [ToggleFlag (Point 1 0)] board_3x3)"
    unfolding board_3x3_def by code_simp
  have s: "tileChangedSignal (play [ToggleFlag (Point 1 0)] board_3x3) = [Point 1 0]"
    "filter (revealedOnLoss (play [ToggleFlag (Point 1 0)] board_3x3))
       (points (tileData (play [ToggleFlag (Point 1 0)] board_3x3))) = [Point 1 0, Point 1 1]"
    unfolding board_3x3_def by code_simp+
  from handleLose_reveals[OF h] s h show ?thesis by auto
qed

section \<open>The counter and the tiles left to open\<close>

text \<open>
  A tile still to be opened for the win: not a bomb, and not (open and unflagged).
\<close>

definition leftToOpen :: "MinesweeperBoard \<Rightarrow> Point \<Rightarrow> bool" where
  "leftToOpen b p \<longleftrightarrow>
     cell (tileData b) p \<noteq> BombTile \<and>
     \<not> (isOpen (cell (tileState b) p) \<and> state (cell (tileState b) p) = Default)"

definition cnt :: "MinesweeperBoard \<Rightarrow> nat" where
  "cnt b = length (filter (leftToOpen b) (points (tileData b)))"

lemma length_filter_split:
  assumes "distinct pts" "distinct ps" "set ps \<subseteq> set pts"
    and "\<forall>q \<in> set pts. C' q = (C q \<and> q \<notin> set ps)"
    and "\<forall>q \<in> set ps. C q = N q"
  shows "length (filter C pts) = length (filter C' pts) + length (filter N ps)"
proof -
  have 1: "length (filter C pts) = card {q \<in> set pts. C q}"
    using distinct_length_filter[OF assms(1), of C] by (simp add: Int_def conj_commute)
  have 2: "length (filter C' pts) = card {q \<in> set pts. C' q}"
    using distinct_length_filter[OF assms(1), of C'] by (simp add: Int_def conj_commute)
  have 3: "length (filter N ps) = card {q \<in> set ps. N q}"
    using distinct_length_filter[OF assms(2), of N] by (simp add: Int_def conj_commute)
  have "{q \<in> set pts. C q} = {q \<in> set pts. C' q} \<union> {q \<in> set ps. N q}"
    using assms(3,4,5) by auto
  moreover have "{q \<in> set pts. C' q} \<inter> {q \<in> set ps. N q} = {}"
    using assms(3,4) by auto
  ultimately have "card {q \<in> set pts. C q} = card {q \<in> set pts. C' q} + card {q \<in> set ps. N q}"
    by (simp add: card_Un_disjoint)
  with 1 2 3 show ?thesis by simp
qed

lemma opens_cnt:
  assumes wf: "wf_board b" and o: "opens b ps b'"
  shows "cnt b = cnt b' + length (filter (\<lambda>p. cell (tileData b) p \<noteq> BombTile) ps)"
proof -
  note pts = points_board[OF wf]
  have td: "tileData b' = tileData b" using o by (simp add: opens_def frame_def)
  have "length (filter (leftToOpen b) (points (tileData b)))
      = length (filter (leftToOpen b') (points (tileData b)))
        + length (filter (\<lambda>p. cell (tileData b) p \<noteq> BombTile) ps)"
  proof (rule length_filter_split)
    show "distinct (points (tileData b))" by (rule pts(1))
    show "distinct ps" using o by (simp add: opens_def)
    show "set ps \<subseteq> set (points (tileData b))" using o pts(2) by (auto simp: opens_def)
    show "\<forall>q \<in> set (points (tileData b)). leftToOpen b' q = (leftToOpen b q \<and> q \<notin> set ps)"
      using o pts(2) td by (auto simp: opens_def leftToOpen_def)
    show "\<forall>q \<in> set ps. leftToOpen b q = (cell (tileData b) q \<noteq> BombTile)"
      using o by (auto simp: opens_def leftToOpen_def)
  qed
  then show ?thesis by (simp add: cnt_def td)
qed

lemma opens_counter:
  assumes wf: "wf_board b" and o: "opens b ps b'"
    and c: "tilesLeftToOpenToWin b = int (cnt b)"
  shows "tilesLeftToOpenToWin b' = int (cnt b')"
  using opens_cnt[OF wf o] o c by (simp add: opens_def)

lemma cnt_cong:
  assumes "wf_board b" "tileData b' = tileData b"
    and "\<And>p. isPointInBounds b p \<Longrightarrow> leftToOpen b' p = leftToOpen b p"
  shows "cnt b' = cnt b"
  unfolding cnt_def assms(2)
  using points_board(2)[OF assms(1)] assms(3)
  by (intro arg_cong[of _ _ length] filter_cong) auto

lemma openAll_opens:
  assumes "wf_board b" "\<forall>q \<in> set qs. isPointInBounds b q"
  shows "\<exists>ps b'. openAll qs b = Inr b' \<and> opens b ps b' \<and>
           (\<forall>q \<in> set qs. state (cell (tileState b) q) = Default \<longrightarrow> isOpen (cell (tileState b') q)) \<and>
           (data_ok b \<longrightarrow> (\<forall>x \<in> set ps. cell (tileData b) x = BombTile \<longrightarrow> x \<in> set qs))"
  using assms
proof (induction qs arbitrary: b)
  case Nil
  show ?case using opens_refl[of b] by auto
next
  case (Cons q qs)
  then have wf: "wf_board b" and inb: "isPointInBounds b q"
    and inbs: "\<forall>x \<in> set qs. isPointInBounds b x" by auto
  from setTileOpen_opens_aux(1)[of b q True] wf inb obtain ps1 bm where
    r1: "setTileOpen q True b = Inr bm" and o1: "opens b ps1 bm"
    and n1: "isOpen (cell (tileState b) q) \<or> state (cell (tileState b) q) \<noteq> Default
               \<longrightarrow> ps1 = [] \<and> bm = b"
    and h1: "\<not> isOpen (cell (tileState b) q) \<and> state (cell (tileState b) q) = Default
               \<longrightarrow> (\<exists>ps'. ps1 = q # ps')"
    and d1: "data_ok b \<longrightarrow> (\<forall>x \<in> set ps1. x \<noteq> q \<longrightarrow> cell (tileData b) x \<noteq> BombTile)"
    by blast
  have wfm: "wf_board bm" using o1 wf by (rule opens_wf)
  have fm: "frame b bm" using o1 by (rule opens_frame)
  have inbm: "isPointInBounds bm = isPointInBounds b" using fm by (rule frame_inb)
  from Cons.IH[OF wfm] inbs inbm obtain ps2 b' where
    r2: "openAll qs bm = Inr b'" and o2: "opens bm ps2 b'"
    and a2: "\<forall>x \<in> set qs. state (cell (tileState bm) x) = Default \<longrightarrow> isOpen (cell (tileState b') x)"
    and d2: "data_ok bm \<longrightarrow> (\<forall>x \<in> set ps2. cell (tileData bm) x = BombTile \<longrightarrow> x \<in> set qs)"
    by auto
  have o: "opens b (ps1 @ ps2) b'" using o1 o2 by (rule opens_trans)
  have st: "state (cell (tileState bm) x) = state (cell (tileState b) x)" if "isPointInBounds b x" for x
    using o1 that by (cases "x \<in> set ps1") (auto simp: opens_def)
  have mono2: "isOpen (cell (tileState b') x)" if "isPointInBounds b x" "isOpen (cell (tileState bm) x)" for x
    using o2 that inbm by (cases "x \<in> set ps2") (auto simp: opens_def)
  have qopen: "state (cell (tileState b) q) = Default \<longrightarrow> isOpen (cell (tileState b') q)"
  proof
    assume dq: "state (cell (tileState b) q) = Default"
    have "isOpen (cell (tileState bm) q)"
    proof (cases "isOpen (cell (tileState b) q)")
      case True
      with n1 show ?thesis by simp
    next
      case False
      with h1 dq obtain ps' where "ps1 = q # ps'" by blast
      with o1 show ?thesis by (auto simp: opens_def)
    qed
    then show "isOpen (cell (tileState b') q)" using mono2 inb by simp
  qed
  have a: "\<forall>x \<in> set (q # qs). state (cell (tileState b) x) = Default \<longrightarrow> isOpen (cell (tileState b') x)"
    using qopen a2 st inbs by auto
  have d: "data_ok b \<longrightarrow> (\<forall>x \<in> set (ps1 @ ps2). cell (tileData b) x = BombTile \<longrightarrow> x \<in> set (q # qs))"
    using d1 d2 frame_data_ok[OF fm] frame_tileData[OF fm] by auto
  show ?case using r1 r2 o a d
    by (intro exI[of _ "ps1 @ ps2"] exI[of _ b']) simp
qed

lemma handleLose_effect:
  assumes wf: "wf_board b"
  shows "\<exists>b'. handleLose b = Inr b' \<and> boardState b' = Lost \<and> wf_board b' \<and>
           tileData b' = tileData b \<and> bombCount b' = bombCount b \<and>
           tilesLeftToOpenToWin b' = tilesLeftToOpenToWin b \<and>
           (\<forall>q. isPointInBounds b q \<longrightarrow>
              cell (tileState b') q =
                (if loseCond b q then (cell (tileState b) q)\<lparr>isOpen := True\<rparr>
                 else cell (tileState b) q))"
proof -
  note pts = points_board[OF wf]
  from handleLose_loop_effect[OF wf pts(1)] pts(2) obtain b1 where
    r: "handleLose_loop (points (tileData b)) b = Inr b1" and f: "frame b b1"
    and t: "tilesLeftToOpenToWin b1 = tilesLeftToOpenToWin b"
    and c: "\<forall>q. isPointInBounds b q \<longrightarrow> cell (tileState b1) q =
          (if q \<in> set (points (tileData b)) \<and> loseCond b q
           then (cell (tileState b) q)\<lparr>isOpen := True\<rparr> else cell (tileState b) q)"
    by auto
  have wf1: "wf_board b1" using f wf by (rule frame_wf)
  then have "wf_board (set_boardState Lost b1)"
    by (simp add: wf_board_def set_boardState_def)
  then show ?thesis
    using r f t c pts(2)
    by (intro exI[of _ "set_boardState Lost b1"])
       (simp add: handleLose_def set_boardState_def frame_def)
qed

lemma checkWin_effect:
  assumes wf: "wf_board b" and nn: "0 \<le> tilesLeftToOpenToWin b"
  shows "(tilesLeftToOpenToWin b \<noteq> 0 \<longrightarrow> checkWin b = Inr b) \<and>
         (tilesLeftToOpenToWin b = 0 \<longrightarrow>
           (\<exists>b'. checkWin b = Inr b' \<and> boardState b' = Won \<and> wf_board b' \<and>
              boardStateChangedSignal b' = boardStateChangedSignal b @ [Won] \<and>
              tileData b' = tileData b \<and> bombCount b' = bombCount b \<and>
              tilesLeftToOpenToWin b' = tilesLeftToOpenToWin b \<and>
              tileChangedSignal b' =
                tileChangedSignal b @ filter (winCond b) (points (tileData b)) \<and>
              (\<forall>q. isPointInBounds b q \<longrightarrow>
                 cell (tileState b') q =
                   (if winCond b q then (cell (tileState b) q)\<lparr>state := Flag\<rparr>
                    else cell (tileState b) q))))"
proof -
  note pts = points_board[OF wf]
  from checkWin_loop_effect[OF wf pts(1)] pts(2) obtain b1 where
    r: "checkWin_loop (points (tileData b)) b = Inr b1" and f: "frame b b1"
    and t: "tilesLeftToOpenToWin b1 = tilesLeftToOpenToWin b"
    and c: "\<forall>q. isPointInBounds b q \<longrightarrow> cell (tileState b1) q =
          (if q \<in> set (points (tileData b)) \<and> winCond b q
           then (cell (tileState b) q)\<lparr>state := Flag\<rparr> else cell (tileState b) q)"
    and s: "tileChangedSignal b1 = tileChangedSignal b @ filter (winCond b) (points (tileData b))"
    by auto
  have wf1: "wf_board b1" using f wf by (rule frame_wf)
  then have w: "wf_board (set_boardState Won b1)"
    by (simp add: wf_board_def set_boardState_def)
  have "tilesLeftToOpenToWin b = 0 \<longrightarrow>
           (\<exists>b'. checkWin b = Inr b' \<and> boardState b' = Won \<and> wf_board b' \<and>
              boardStateChangedSignal b' = boardStateChangedSignal b @ [Won] \<and>
              tileData b' = tileData b \<and> bombCount b' = bombCount b \<and>
              tilesLeftToOpenToWin b' = tilesLeftToOpenToWin b \<and>
              tileChangedSignal b' =
                tileChangedSignal b @ filter (winCond b) (points (tileData b)) \<and>
              (\<forall>q. isPointInBounds b q \<longrightarrow>
                 cell (tileState b') q =
                   (if winCond b q then (cell (tileState b) q)\<lparr>state := Flag\<rparr>
                    else cell (tileState b) q)))"
    using r f t c s pts(2) w
    by (intro impI exI[of _ "set_boardState Won b1"])
       (simp add: checkWin_def set_boardState_def frame_def)
  moreover have "tilesLeftToOpenToWin b \<noteq> 0 \<longrightarrow> checkWin b = Inr b"
    using nn by (simp add: checkWin_def)
  ultimately show ?thesis by blast
qed

lemma filterE_get:
  assumes "wf_board b" "\<forall>q \<in> set xs. isPointInBounds b q"
  shows "filterE (\<lambda>q. case get (tileState b) q of Inl e \<Rightarrow> Inl e | Inr nts \<Rightarrow> Inr (P nts)) xs
         = Inr (filter (\<lambda>q. P (cell (tileState b) q)) xs)"
  using assms(2)
proof (induction xs)
  case Nil show ?case by simp
next
  case (Cons x xs)
  then show ?case using board_gets(1)[OF assms(1), of x] by simp
qed

lemma anyBomb_eq:
  assumes "wf_board b" "\<forall>q \<in> set xs. isPointInBounds b q"
  shows "anyBomb xs b = Inr (\<exists>q \<in> set xs. cell (tileData b) q = BombTile)"
  using assms(2)
proof (induction xs)
  case Nil show ?case by simp
next
  case (Cons x xs)
  then show ?case using board_gets(2)[OF assms(1), of x] by auto
qed

lemma openNeighbors_wf:
  assumes wf: "wf_board b" and inb: "isPointInBounds b p"
    and op: "isOpen (cell (tileState b) p)" and td: "cell (tileData b) p = EmptyTile k"
  shows "openNeighbors p b =
     (if length (filter (\<lambda>q. \<not> isOpen (cell (tileState b) q) \<and> state (cell (tileState b) q) = Flag)
                   (filter (isPointInBounds b) (eightWayNeighbors p))) \<noteq> k then Inr b
      else case openAll (filter (\<lambda>q. \<not> isOpen (cell (tileState b) q) \<and> state (cell (tileState b) q) \<noteq> Flag)
                   (filter (isPointInBounds b) (eightWayNeighbors p))) b of
             Inl x \<Rightarrow> Inl x
           | Inr b1 \<Rightarrow>
               (case anyBomb (filter (\<lambda>q. \<not> isOpen (cell (tileState b) q) \<and> state (cell (tileState b) q) \<noteq> Flag)
                   (filter (isPointInBounds b) (eightWayNeighbors p))) b1 of
                  Inl e \<Rightarrow> Inl (e, b1)
                | Inr bomb \<Rightarrow> if bomb then handleLose b1 else checkWin b1))"
proof -
  let ?nb = "filter (isInBounds (tileData b)) (eightWayNeighbors p)"
  have nb: "?nb = filter (isPointInBounds b) (eightWayNeighbors p)"
    by (simp add: isPointInBounds_def[abs_def])
  have all: "\<forall>q \<in> set ?nb. isPointInBounds b q" by (simp add: isPointInBounds_def)
  note g = board_gets[OF wf inb]
  show ?thesis
    unfolding openNeighbors_def
    by (simp add: g op td Let_def filterE_get[OF wf all] nb[symmetric] del: filter_filter
          split: sum.splits bool.splits)
qed

section \<open>Chord opening\<close>

text \<open>The neighbours of a point that are in bounds, closed and flagged.\<close>

definition flaggedNeighbors :: "MinesweeperBoard \<Rightarrow> Point \<Rightarrow> Point list" where
  "flaggedNeighbors b point =
     filter (\<lambda>q. case get (tileState b) q of
                    Inl e \<Rightarrow> False
                  | Inr nts \<Rightarrow> \<not> isOpen nts \<and> state nts = Flag)
            (eightWayNeighbors point)"

lemma get_Inr_inb:
  assumes "wf_board b" "get (tileState b) p = Inr ts"
  shows "isPointInBounds b p" and "ts = cell (tileState b) p"
proof -
  show i: "isPointInBounds b p"
    using assms get_oob[of "tileState b" p] by (auto simp: wf_board_inb isPointInBounds_def)
  show "ts = cell (tileState b) p" using board_gets(1)[OF assms(1) i] assms(2) by simp
qed

lemma get_data_Inr_inb:
  assumes "wf_board b" "get (tileData b) p = Inr td"
  shows "isPointInBounds b p" and "td = cell (tileData b) p"
proof -
  show i: "isPointInBounds b p"
    using assms get_oob[of "tileData b" p] by (auto simp: isPointInBounds_def)
  show "td = cell (tileData b) p" using board_gets(2)[OF assms(1) i] assms(2) by simp
qed

lemma flaggedNeighbors_cell:
  assumes wf: "wf_board b"
  shows "flaggedNeighbors b p =
     filter (\<lambda>q. \<not> isOpen (cell (tileState b) q) \<and> state (cell (tileState b) q) = Flag)
        (filter (isPointInBounds b) (eightWayNeighbors p))"
proof -
  have "(case get (tileState b) q of Inl e \<Rightarrow> False | Inr nts \<Rightarrow> \<not> isOpen nts \<and> state nts = Flag)
        = (isPointInBounds b q \<and> \<not> isOpen (cell (tileState b) q) \<and> state (cell (tileState b) q) = Flag)"
    for q
  proof (cases "isPointInBounds b q")
    case True
    then show ?thesis using board_gets(1)[OF wf True] by simp
  next
    case False
    then have "get (tileState b) q = Inl (OutOfBounds q)"
      using wf by (simp add: get_oob wf_board_inb isPointInBounds_def)
    with False show ?thesis by simp
  qed
  then show ?thesis unfolding flaggedNeighbors_def by (simp add: conj_commute conj_left_commute)
qed

lemma finish_keeps_open:
  assumes wf: "wf_board b" and r: "r = handleLose b \<or> r = checkWin b"
  shows "wf_board (after r) \<and> isPointInBounds (after r) = isPointInBounds b \<and>
         (\<forall>q. isPointInBounds b q \<and> isOpen (cell (tileState b) q)
               \<longrightarrow> isOpen (cell (tileState (after r)) q))"
  using r
proof
  assume "r = handleLose b"
  moreover from handleLose_effect[OF wf] obtain b' where
    "handleLose b = Inr b'" "wf_board b'" "tileData b' = tileData b"
    "\<forall>q. isPointInBounds b q \<longrightarrow> cell (tileState b') q =
        (if loseCond b q then (cell (tileState b) q)\<lparr>isOpen := True\<rparr> else cell (tileState b) q)"
    by blast
  ultimately show ?thesis by (auto simp: after_def isPointInBounds_def fun_eq_iff)
next
  assume rc: "r = checkWin b"
  show ?thesis
  proof (cases "0 \<le> tilesLeftToOpenToWin b")
    case False
    then have "checkWin b = Inl (AssertionFailed ''This number should never be negative'', b)"
      by (simp add: checkWin_def)
    with rc wf show ?thesis by (simp add: after_def)
  next
    case True
    note e = checkWin_effect[OF wf True]
    show ?thesis
    proof (cases "tilesLeftToOpenToWin b = 0")
      case False
      with e rc wf show ?thesis by (simp add: after_def)
    next
      case True
      with e obtain b' where
        "checkWin b = Inr b'" "wf_board b'" "tileData b' = tileData b"
        "\<forall>q. isPointInBounds b q \<longrightarrow> cell (tileState b') q =
          (if winCond b q then (cell (tileState b) q)\<lparr>state := Flag\<rparr> else cell (tileState b) q)"
        by blast
      with rc show ?thesis by (auto simp: after_def isPointInBounds_def fun_eq_iff)
    qed
  qed
qed

text \<open>
  Claim C3: chord opening is all-or-nothing. \<^verbatim>\<open>openNeighbors\<close> is what \<^verbatim>\<open>clickTile\<close> does at an
  open tile of an active board. At an open empty tile whose number is \<open>k\<close>: when the number of
  neighbours that are in bounds, closed and flagged is not \<open>k\<close>, the call returns normally and
  the whole board is unchanged; when it is \<open>k\<close>, every neighbour that was in bounds, closed and
  unflagged is open after the call.
\<close>

theorem chord_all_or_nothing:
  assumes wf: "wf_board b"
    and ts: "get (tileState b) point = Inr ts" and op: "isOpen ts"
    and td: "get (tileData b) point = Inr (EmptyTile k)"
  shows "(boardState b = Active \<longrightarrow> clickTile point b = openNeighbors point b) \<and>
         (length (flaggedNeighbors b point) \<noteq> k \<longrightarrow> openNeighbors point b = Inr b) \<and>
         (length (flaggedNeighbors b point) = k \<longrightarrow>
            (\<forall>q \<in> set (eightWayNeighbors point). \<forall>nts.
               get (tileState b) q = Inr nts \<and> \<not> isOpen nts \<and> state nts \<noteq> Flag \<longrightarrow>
               (\<exists>nts'. get (tileState (after (openNeighbors point b))) q = Inr nts' \<and>
                        isOpen nts')))"
proof -
  note i = get_Inr_inb[OF wf ts]
  have opc: "isOpen (cell (tileState b) point)" using i(2) op by simp
  have tdc: "cell (tileData b) point = EmptyTile k" using get_data_Inr_inb(2)[OF wf td] by simp
  have 0: "boardState b = Active \<longrightarrow> clickTile point b = openNeighbors point b"
    using ts op by (simp add: clickTile_def)
  let ?open = "filter (\<lambda>q. \<not> isOpen (cell (tileState b) q) \<and> state (cell (tileState b) q) \<noteq> Flag)
                   (filter (isPointInBounds b) (eightWayNeighbors point))"
  note on = openNeighbors_wf[OF wf i(1) opc tdc, folded flaggedNeighbors_cell[OF wf]]
  have 1: "length (flaggedNeighbors b point) \<noteq> k \<longrightarrow> openNeighbors point b = Inr b"
    using on by simp
  have 2: "\<exists>nts'. get (tileState (after (openNeighbors point b))) q = Inr nts' \<and> isOpen nts'"
    if k: "length (flaggedNeighbors b point) = k" and q: "q \<in> set (eightWayNeighbors point)"
      and g: "get (tileState b) q = Inr nts" and c: "\<not> isOpen nts" "state nts \<noteq> Flag" for q nts
  proof -
    note iq = get_Inr_inb[OF wf g]
    have qo: "q \<in> set ?open" using q iq c by simp
    have dq: "state (cell (tileState b) q) = Default" using iq(2) c(2) by (cases "state nts") auto
    have "\<forall>x \<in> set ?open. isPointInBounds b x" by simp
    from openAll_opens[OF wf this] obtain ps b1 where
      r1: "openAll ?open b = Inr b1" and o1: "opens b ps b1"
      and a1: "\<forall>x \<in> set ?open. state (cell (tileState b) x) = Default \<longrightarrow> isOpen (cell (tileState b1) x)"
      by blast
    have wf1: "wf_board b1" using o1 wf by (rule opens_wf)
    have inb1: "isPointInBounds b1 = isPointInBounds b" using opens_frame[OF o1] by (rule frame_inb)
    have q1: "isOpen (cell (tileState b1) q)" using a1 qo dq by blast
    have "openNeighbors point b = handleLose b1 \<or> openNeighbors point b = checkWin b1"
      using on k r1 anyBomb_eq[OF wf1, of ?open] inb1 by (auto split: if_splits)
    from finish_keeps_open[OF wf1 this] q1 iq(1) inb1
    have "wf_board (after (openNeighbors point b))"
      "isPointInBounds (after (openNeighbors point b)) q"
      "isOpen (cell (tileState (after (openNeighbors point b))) q)" by auto
    then show ?thesis using board_gets(1) by auto
  qed
  show ?thesis using 0 1 2 by blast
qed

theorem chord_all_or_nothing_witness:
  "wf_board (play [ToggleFlag (Point 1 1), Click (Point 0 0)] board_3x3) \<and>
   boardState (play [ToggleFlag (Point 1 1), Click (Point 0 0)] board_3x3) = Active \<and>
   clickTile (Point 0 0) (play [ToggleFlag (Point 1 1), Click (Point 0 0)] board_3x3)
     = openNeighbors (Point 0 0) (play [ToggleFlag (Point 1 1), Click (Point 0 0)] board_3x3) \<and>
   length (flaggedNeighbors (play [ToggleFlag (Point 1 1), Click (Point 0 0)] board_3x3) (Point 0 0)) = 1 \<and>
   (\<exists>nts'. get (tileState (after (openNeighbors (Point 0 0)
        (play [ToggleFlag (Point 1 1), Click (Point 0 0)] board_3x3)))) (Point 1 0) = Inr nts' \<and> isOpen nts')"
proof -
  let ?b = "play [ToggleFlag (Point 1 1), Click (Point 0 0)] board_3x3"
  have h: "wf_board ?b"
    "get (tileState ?b) (Point 0 0) = Inr \<lparr>state = Default, isOpen = True, wasClicked = True\<rparr>"
    "isOpen \<lparr>state = Default, isOpen = True, wasClicked = True\<rparr>"
    "get (tileData ?b) (Point 0 0) = Inr (EmptyTile 1)"
    unfolding board_3x3_def by code_simp+
  have a: "boardState ?b = Active" unfolding board_3x3_def by code_simp
  have k: "length (flaggedNeighbors ?b (Point 0 0)) = 1"
    unfolding board_3x3_def by code_simp
  have q: "Point 1 0 \<in> set (eightWayNeighbors (Point 0 0))"
    "get (tileState ?b) (Point 1 0) = Inr \<lparr>state = Default, isOpen = False, wasClicked = False\<rparr>"
    unfolding board_3x3_def by code_simp+
  note t = chord_all_or_nothing[OF h]
  from t a have 1: "clickTile (Point 0 0) ?b = openNeighbors (Point 0 0) ?b" by blast
  from t k q have 2: "\<exists>nts'. get (tileState (after (openNeighbors (Point 0 0) ?b))) (Point 1 0)
      = Inr nts' \<and> isOpen nts'" by force
  show ?thesis by (intro conjI h(1) a 1 k 2)
qed

section \<open>The constructor\<close>

lemma points_nth:
  assumes wf: "wf_grid g" and inb: "isInBounds g p"
  shows "points g ! indexOf g p = p"
proof -
  have "p \<in> set (points g)" using inb by (simp add: set_points)
  then obtain i where i: "i < length (points g)" "points g ! i = p"
    by (auto simp: in_set_conv_nth)
  have "map (indexOf g) (points g) ! i = [0..<length (array g)] ! i"
    using map_indexOf_points[OF wf] by simp
  then have "indexOf g p = i" using i length_points[OF wf] by simp
  with i show ?thesis by simp
qed

lemma arrayFrom_total:
  assumes "\<forall>x \<in> set xs. f x = Inr (F x)"
  shows "arrayFrom f xs = Inr (map F xs)"
  using assms by (induction xs) auto

lemma mapIndexed_wf:
  assumes wf: "wf_grid g"
  shows "mapIndexed g transform =
           Inr \<lparr>width = width g, height = height g,
                array = map (\<lambda>p. transform p (cell g p)) (points g)\<rparr>"
proof -
  have "\<forall>p \<in> set (points g). (case get g p of Inl e \<Rightarrow> Inl e | Inr v \<Rightarrow> Inr (transform p v))
          = Inr (transform p (cell g p))"
    using wf by (simp add: set_points get_cell)
  from arrayFrom_total[OF this]
  show ?thesis using wf length_points[OF wf]
    by (simp add: mapIndexed_def new_Grid_def wf_grid_def)
qed

lemma cell_mapped:
  assumes wf: "wf_grid g" and inb: "isInBounds g p"
  shows "cell \<lparr>width = width g, height = height g, array = map F (points g)\<rparr> p = F p"
proof -
  have "indexOf g p < length (points g)"
    using inb_index_lt[OF wf inb] length_points[OF wf] by simp
  then show ?thesis using points_nth[OF wf inb] by (simp add: cell_def indexOf_def)
qed

text \<open>The callback that the constructor passes to \<^verbatim>\<open>mapIndexed\<close>.\<close>

definition tileOf :: "bool Grid \<Rightarrow> Point \<Rightarrow> bool \<Rightarrow> TileData" where
  "tileOf bombsGrid point isBomb =
     (if isBomb then BombTile
      else EmptyTile (length (filter
             (\<lambda>q. case getOrNull bombsGrid q of None \<Rightarrow> False | Some v \<Rightarrow> v)
             (eightWayNeighbors point))))"

lemma constructor_ok:
  assumes w: "0 < w" and h: "0 < h" and len: "int (length bombsArray) = w * h"
  shows "constructor w h bombsArray =
     Inr \<lparr>boardState = NotStarted,
          tileData = \<lparr>width = w, height = h,
             array = map (\<lambda>p. tileOf \<lparr>width = w, height = h, array = bombsArray\<rparr> p
                                (cell \<lparr>width = w, height = h, array = bombsArray\<rparr> p))
                         (points \<lparr>width = w, height = h, array = bombsArray\<rparr>)\<rparr>,
          tileState = \<lparr>width = w, height = h,
             array = replicate (nat (w * h)) \<lparr>state = Default, isOpen = False, wasClicked = False\<rparr>\<rparr>,
          bombCount = length (filter (\<lambda>isBomb. isBomb) bombsArray),
          tilesLeftToOpenToWin = w * h - int (length (filter (\<lambda>isBomb. isBomb) bombsArray)),
          tileChangedSignal = [],
          boardStateChangedSignal = []\<rparr>"
proof -
  let ?g = "\<lparr>width = w, height = h, array = bombsArray\<rparr>"
  have wf: "wf_grid ?g" using w h len by (simp add: wf_grid_def)
  have g: "new_Grid w h bombsArray = Inr ?g" using w h len by (simp add: new_Grid_def)
  have n: "0 \<le> w * h" using w h by simp
  have s: "new_Grid w h (replicate (nat (w * h)) \<lparr>state = Default, isOpen = False, wasClicked = False\<rparr>)
      = Inr \<lparr>width = w, height = h,
             array = replicate (nat (w * h)) \<lparr>state = Default, isOpen = False, wasClicked = False\<rparr>\<rparr>"
    using w h n by (simp add: new_Grid_def)
  show ?thesis
    unfolding constructor_def
    using w h len
    by (simp add: g s mapIndexed_wf[OF wf, unfolded Grid.simps] tileOf_def[abs_def] Let_def)
qed

lemma map_cell_points:
  assumes wf: "wf_grid g"
  shows "map (cell g) (points g) = array g"
proof -
  have "map (cell g) (points g) = map ((!) (array g)) (map (indexOf g) (points g))"
    by (simp add: cell_def[abs_def] comp_def)
  also have "\<dots> = map ((!) (array g)) [0..<length (array g)]"
    by (simp only: map_indexOf_points[OF wf])
  also have "\<dots> = array g" by (rule map_nth)
  finally show ?thesis .
qed

lemma count_points:
  assumes wf: "wf_grid g"
  shows "length (filter (\<lambda>p. P (cell g p)) (points g)) = length (filter P (array g))"
proof -
  have "length (filter P (map (cell g) (points g))) = length (filter (P \<circ> cell g) (points g))"
    by (simp add: filter_map)
  then show ?thesis by (simp add: map_cell_points[OF wf] comp_def)
qed

section \<open>The invariant of the engine\<close>

definition hasEmpty :: "MinesweeperBoard \<Rightarrow> bool" where
  "hasEmpty b \<longleftrightarrow> (\<exists>p. isPointInBounds b p \<and> cell (tileData b) p \<noteq> BombTile)"

text \<open>What holds of every board, whatever its state.\<close>

definition core :: "MinesweeperBoard \<Rightarrow> bool" where
  "core b \<longleftrightarrow>
     wf_board b \<and> data_ok b \<and>
     tilesLeftToOpenToWin b = int (cnt b) \<and>
     bombCount b = length (filter (\<lambda>t. t = BombTile) (array (tileData b)))"

text \<open>Every open tile is an unflagged empty tile.\<close>

definition clean :: "MinesweeperBoard \<Rightarrow> bool" where
  "clean b \<longleftrightarrow>
     (\<forall>p. isPointInBounds b p \<and> isOpen (cell (tileState b) p) \<longrightarrow>
        state (cell (tileState b) p) = Default \<and> cell (tileData b) p \<noteq> BombTile)"

definition inv :: "MinesweeperBoard \<Rightarrow> bool" where
  "inv b \<longleftrightarrow>
     core b \<and>
     (boardState b \<noteq> Lost \<longrightarrow> clean b) \<and>
     (boardState b \<noteq> Won \<and> hasEmpty b \<longrightarrow> 0 < cnt b) \<and>
     (boardState b = Won \<longrightarrow>
        cnt b = 0 \<and>
        (\<forall>p. isPointInBounds b p \<and> cell (tileData b) p = BombTile
              \<longrightarrow> state (cell (tileState b) p) = Flag))"

lemma constructor_props:
  assumes c: "constructor w h bombsArray = Inr b"
  shows "0 < w" "0 < h" "int (length bombsArray) = w * h"
    and "wf_board b" and "boardState b = NotStarted"
    and "width (tileData b) = w" "height (tileData b) = h"
    and "\<And>p. isPointInBounds b p \<Longrightarrow>
           cell (tileData b) p = tileOf \<lparr>width = w, height = h, array = bombsArray\<rparr> p
                                   (cell \<lparr>width = w, height = h, array = bombsArray\<rparr> p)"
    and "\<And>p. isPointInBounds b p \<Longrightarrow>
           cell (tileState b) p = \<lparr>state = Default, isOpen = False, wasClicked = False\<rparr>"
    and "bombCount b = length (filter (\<lambda>isBomb. isBomb) bombsArray)"
    and "tilesLeftToOpenToWin b = w * h - int (bombCount b)"
    and "tileChangedSignal b = []" "boardStateChangedSignal b = []"
proof -
  show w: "0 < w" and h: "0 < h" and len: "int (length bombsArray) = w * h"
    using c by (auto simp: constructor_def split: if_splits)
  let ?g = "\<lparr>width = w, height = h, array = bombsArray\<rparr>"
  have wfg: "wf_grid ?g" using w h len by (simp add: wf_grid_def)
  note e = constructor_ok[OF w h len, unfolded c]
  have b: "tileData b = \<lparr>width = w, height = h,
             array = map (\<lambda>p. tileOf ?g p (cell ?g p)) (points ?g)\<rparr>"
    "tileState b = \<lparr>width = w, height = h,
             array = replicate (nat (w * h)) \<lparr>state = Default, isOpen = False, wasClicked = False\<rparr>\<rparr>"
    "boardState b = NotStarted"
    "bombCount b = length (filter (\<lambda>isBomb. isBomb) bombsArray)"
    "tilesLeftToOpenToWin b = w * h - int (length (filter (\<lambda>isBomb. isBomb) bombsArray))"
    "tileChangedSignal b = []" "boardStateChangedSignal b = []"
    using e by auto
  have lp: "length (points ?g) = length bombsArray" using length_points[OF wfg] by simp
  have n: "int (nat (w * h)) = w * h" using w h by simp
  show wfb: "wf_board b"
    using w h len lp n by (simp add: b wf_board_def wf_grid_def)
  show "boardState b = NotStarted" "width (tileData b) = w" "height (tileData b) = h"
    "bombCount b = length (filter (\<lambda>isBomb. isBomb) bombsArray)"
    "tilesLeftToOpenToWin b = w * h - int (bombCount b)"
    "tileChangedSignal b = []" "boardStateChangedSignal b = []"
    by (simp_all add: b)
  fix p assume inb: "isPointInBounds b p"
  then have ig: "isInBounds ?g p" by (simp add: b isPointInBounds_def isInBounds_def)
  show "cell (tileData b) p = tileOf ?g p (cell ?g p)"
    using cell_mapped[OF wfg ig, of "\<lambda>p. tileOf ?g p (cell ?g p)"] by (simp add: b)
  have "indexOf (tileState b) p < length (array (tileState b))"
    using inb wfb by (intro inb_index_lt) (simp_all add: wf_board_tileState board_gets(3))
  then show "cell (tileState b) p = \<lparr>state = Default, isOpen = False, wasClicked = False\<rparr>"
    by (simp add: cell_def b)
qed

lemma points_cong: "width g' = width g \<Longrightarrow> height g' = height g \<Longrightarrow> points g' = points g"
  by (simp add: points_def)

lemma cnt_pos:
  assumes "wf_board b" "isPointInBounds b p" "leftToOpen b p"
  shows "0 < cnt b"
proof -
  have "p \<in> set (filter (leftToOpen b) (points (tileData b)))"
    using assms points_board(2)[OF assms(1)] by simp
  then show ?thesis unfolding cnt_def by (metis length_pos_if_in_set)
qed

lemma constructor_bombs:
  assumes c: "constructor w h bombsArray = Inr b"
  shows "length (filter (\<lambda>t. t = BombTile) (array (tileData b)))
         = length (filter (\<lambda>isBomb. isBomb) bombsArray)"
proof -
  note p = constructor_props[OF c]
  let ?g = "\<lparr>width = w, height = h, array = bombsArray\<rparr>"
  have wfg: "wf_grid ?g" using p(1,2,3) by (simp add: wf_grid_def)
  have wfd: "wf_grid (tileData b)" using p(4) by (rule wf_board_tileData)
  have pts: "points (tileData b) = points ?g" using p(6,7) by (intro points_cong) auto
  have "length (filter (\<lambda>t. t = BombTile) (array (tileData b)))
      = length (filter (\<lambda>q. cell (tileData b) q = BombTile) (points (tileData b)))"
    using count_points[OF wfd, of "\<lambda>t. t = BombTile"] by simp
  also have "\<dots> = length (filter (\<lambda>q. cell ?g q) (points (tileData b)))"
    using p(8) points_board(2)[OF p(4)]
    by (intro arg_cong[of _ _ length] filter_cong) (auto simp: tileOf_def)
  also have "\<dots> = length (filter (\<lambda>isBomb. isBomb) (array ?g))"
    unfolding pts by (rule count_points[OF wfg])
  finally show ?thesis by simp
qed

lemma constructor_data_ok:
  assumes c: "constructor w h bombsArray = Inr b"
  shows "data_ok b"
  unfolding data_ok_def
proof (intro allI impI)
  fix p k
  assume a: "isPointInBounds b p \<and> get (tileData b) p = Inr (EmptyTile k)"
  note pr = constructor_props[OF c]
  let ?g = "\<lparr>width = w, height = h, array = bombsArray\<rparr>"
  have wfg: "wf_grid ?g" using pr(1,2,3) by (simp add: wf_grid_def)
  have inbg: "isInBounds ?g q = isPointInBounds b q" for q
    using pr(6,7) by (simp add: isPointInBounds_def isInBounds_def)
  have "cell (tileData b) p = EmptyTile k"
    using a get_data_Inr_inb(2)[OF pr(4), of p] by simp
  then have k: "k = length (filter (\<lambda>q. case getOrNull ?g q of None \<Rightarrow> False | Some v \<Rightarrow> v)
             (eightWayNeighbors p))"
    using pr(8)[of p] a by (auto simp: tileOf_def split: if_splits)
  have "(case getOrNull ?g q of None \<Rightarrow> False | Some v \<Rightarrow> v)
        = (isPointInBounds b q \<and> get (tileData b) q = Inr BombTile)" for q
  proof (cases "isPointInBounds b q")
    case True
    then have "getOrNull ?g q = Some (cell ?g q)" using getOrNull_cell[OF wfg] inbg by simp
    moreover have "get (tileData b) q = Inr (tileOf ?g q (cell ?g q))"
      using board_gets(2)[OF pr(4) True] pr(8)[OF True] by simp
    ultimately show ?thesis using True by (simp add: tileOf_def)
  next
    case False
    then have "getOrNull ?g q = None" using getOrNull_oob[of ?g q] inbg by simp
    with False show ?thesis by simp
  qed
  then show "k = trueBombNeighbors b p" unfolding k trueBombNeighbors_def by simp
qed

lemma constructor_cnt:
  assumes c: "constructor w h bombsArray = Inr b"
  shows "tilesLeftToOpenToWin b = int (cnt b)"
proof -
  note pr = constructor_props[OF c]
  have wfd: "wf_grid (tileData b)" using pr(4) by (rule wf_board_tileData)
  have "cnt b = length (filter (\<lambda>q. cell (tileData b) q \<noteq> BombTile) (points (tileData b)))"
    unfolding cnt_def using points_board(2)[OF pr(4)] pr(9)
    by (intro arg_cong[of _ _ length] filter_cong) (auto simp: leftToOpen_def)
  also have "\<dots> = length (filter (\<lambda>t. t \<noteq> BombTile) (array (tileData b)))"
    by (rule count_points[OF wfd])
  finally have "cnt b + length (filter (\<lambda>t. t = BombTile) (array (tileData b)))
      = length (array (tileData b))"
    using sum_length_filter_compl[of "\<lambda>t. t = BombTile" "array (tileData b)"] by simp
  moreover have "int (length (array (tileData b))) = w * h"
    using wfd pr(6,7) by (simp add: wf_grid_def)
  ultimately show ?thesis
    using pr(10,11) constructor_bombs[OF c] by linarith
qed

lemma inv_constructor:
  assumes c: "constructor w h bombsArray = Inr b"
  shows "inv b"
proof -
  note pr = constructor_props[OF c]
  have "core b"
    using pr(4,10) constructor_data_ok[OF c] constructor_cnt[OF c] constructor_bombs[OF c]
    by (simp add: core_def)
  moreover have "clean b" unfolding clean_def
  proof (intro allI impI)
    fix p assume "isPointInBounds b p \<and> isOpen (cell (tileState b) p)"
    then show "state (cell (tileState b) p) = Default \<and> cell (tileData b) p \<noteq> BombTile"
      using pr(9)[of p] by simp
  qed
  moreover have "hasEmpty b \<longrightarrow> 0 < cnt b"
    using cnt_pos[OF pr(4)] pr(9) by (auto simp: hasEmpty_def leftToOpen_def)
  ultimately show ?thesis using pr(5) by (simp add: inv_def)
qed

section \<open>Generation\<close>

lemma shuffleFrom_mset:
  assumes "\<And>i. rnd i \<le> i"
  shows "k < length xs \<Longrightarrow> mset (shuffleFrom k rnd xs) = mset xs"
proof (induction k arbitrary: xs)
  case 0
  show ?case by simp
next
  case (Suc k)
  let ?j = "rnd (Suc k)"
  have j: "?j < length xs" using assms[of "Suc k"] Suc.prems by simp
  let ?xs = "xs[Suc k := xs ! ?j, ?j := xs ! Suc k]"
  have "mset ?xs = mset xs" using mset_swap[OF j Suc.prems] .
  moreover have "mset (shuffleFrom k rnd ?xs) = mset ?xs"
    using Suc.prems by (intro Suc.IH) simp
  ultimately show ?case by (simp add: Let_def)
qed

lemma shuffleArray_mset:
  assumes "\<And>i. rnd i \<le> i"
  shows "mset (shuffleArray rnd xs) = mset xs"
proof (cases xs)
  case Nil
  then show ?thesis by (simp add: shuffleArray_def)
next
  case (Cons a as)
  then have "length xs - 1 < length xs" by simp
  from shuffleFrom_mset[OF assms this] show ?thesis by (simp add: shuffleArray_def)
qed

lemma length_filter_mset: "mset xs = mset ys \<Longrightarrow> length (filter P xs) = length (filter P ys)"
  by (metis mset_filter size_mset)

section \<open>The invariant is preserved\<close>

lemma core_opens:
  assumes "core b" "opens b ps b'"
  shows "core b'"
proof -
  from assms(1) have wf: "wf_board b" and ok: "data_ok b"
    and c: "tilesLeftToOpenToWin b = int (cnt b)"
    and bc: "bombCount b = length (filter (\<lambda>t. t = BombTile) (array (tileData b)))"
    by (simp_all add: core_def)
  note f = opens_frame[OF assms(2)]
  show ?thesis
    unfolding core_def
    using opens_wf[OF assms(2) wf] frame_data_ok[OF f] ok opens_counter[OF wf assms(2) c] bc f
    by (simp add: frame_def)
qed

lemma clean_opens:
  assumes cl: "clean b" and o: "opens b ps b'"
    and nb: "\<forall>q \<in> set ps. cell (tileData b) q \<noteq> BombTile"
  shows "clean b'"
  unfolding clean_def
proof (intro allI impI)
  fix p assume a: "isPointInBounds b' p \<and> isOpen (cell (tileState b') p)"
  have inb: "isPointInBounds b p" using a frame_inb[OF opens_frame[OF o]] by simp
  have td: "tileData b' = tileData b" using opens_frame[OF o] by (rule frame_tileData)
  show "state (cell (tileState b') p) = Default \<and> cell (tileData b') p \<noteq> BombTile"
  proof (cases "p \<in> set ps")
    case True
    with o nb td show ?thesis by (auto simp: opens_def)
  next
    case False
    with o inb have "cell (tileState b') p = cell (tileState b) p" by (auto simp: opens_def)
    with a inb cl td show ?thesis by (auto simp: clean_def)
  qed
qed

lemma hasEmpty_cong:
  "tileData b' = tileData b \<Longrightarrow> hasEmpty b' = hasEmpty b"
  by (simp add: hasEmpty_def isPointInBounds_def)

lemma data_ok_cong:
  "tileData b' = tileData b \<Longrightarrow> data_ok b' = data_ok b"
  by (simp add: data_ok_def trueBombNeighbors_def isPointInBounds_def)

lemma inb_cong:
  "tileData b' = tileData b \<Longrightarrow> isPointInBounds b' = isPointInBounds b"
  by (simp add: isPointInBounds_def fun_eq_iff)

lemma checkWin_inv:
  assumes co: "core b" and cl: "clean b" and act: "boardState b = Active"
  shows "\<exists>b'. checkWin b = Inr b' \<and> inv b' \<and>
           (tilesLeftToOpenToWin b \<noteq> 0 \<longrightarrow> b' = b) \<and>
           (tilesLeftToOpenToWin b = 0 \<longrightarrow> boardState b' = Won)"
proof -
  from co have wf: "wf_board b" and ok: "data_ok b"
    and c: "tilesLeftToOpenToWin b = int (cnt b)"
    and bc: "bombCount b = length (filter (\<lambda>t. t = BombTile) (array (tileData b)))"
    by (simp_all add: core_def)
  have nn: "0 \<le> tilesLeftToOpenToWin b" using c by simp
  note e = checkWin_effect[OF wf nn]
  show ?thesis
  proof (cases "tilesLeftToOpenToWin b = 0")
    case False
    then have "checkWin b = Inr b" using e by simp
    moreover have "inv b" using co cl act c False by (simp add: inv_def)
    ultimately show ?thesis using False by simp
  next
    case True
    with e obtain b' where r: "checkWin b = Inr b'" and won: "boardState b' = Won"
      and wf': "wf_board b'" and td: "tileData b' = tileData b"
      and bc': "bombCount b' = bombCount b"
      and tl: "tilesLeftToOpenToWin b' = tilesLeftToOpenToWin b"
      and cells: "\<forall>q. isPointInBounds b q \<longrightarrow> cell (tileState b') q =
          (if winCond b q then (cell (tileState b) q)\<lparr>state := Flag\<rparr> else cell (tileState b) q)"
      by blast
    have lto: "leftToOpen b' p = leftToOpen b p" if "isPointInBounds b p" for p
      using cells that td by (auto simp: leftToOpen_def winCond_def)
    have cn: "cnt b' = cnt b" using cnt_cong[OF wf td lto] by simp
    have "core b'"
      unfolding core_def using wf' data_ok_cong[OF td] ok cn tl c bc bc' td by simp
    moreover have "clean b'"
      unfolding clean_def
    proof (intro allI impI)
      fix p assume a: "isPointInBounds b' p \<and> isOpen (cell (tileState b') p)"
      then have inb: "isPointInBounds b p" using inb_cong[OF td] by simp
      have "isOpen (cell (tileState b) p)" using a cells inb by (auto split: if_splits)
      then have "state (cell (tileState b) p) = Default \<and> cell (tileData b) p \<noteq> BombTile"
        using cl inb by (auto simp: clean_def)
      then show "state (cell (tileState b') p) = Default \<and> cell (tileData b') p \<noteq> BombTile"
        using cells inb td by (auto simp: winCond_def)
    qed
    moreover have "\<forall>p. isPointInBounds b' p \<and> cell (tileData b') p = BombTile
              \<longrightarrow> state (cell (tileState b') p) = Flag"
      using cells td inb_cong[OF td] by (auto simp: winCond_def)
    ultimately have "inv b'" using won cn c True by (simp add: inv_def)
    with r won True show ?thesis by simp
  qed
qed

lemma handleLose_inv:
  assumes co: "core b" and pos: "hasEmpty b \<longrightarrow> 0 < cnt b"
  shows "\<exists>b'. handleLose b = Inr b' \<and> inv b' \<and> boardState b' = Lost"
proof -
  from co have wf: "wf_board b" and ok: "data_ok b"
    and c: "tilesLeftToOpenToWin b = int (cnt b)"
    and bc: "bombCount b = length (filter (\<lambda>t. t = BombTile) (array (tileData b)))"
    by (simp_all add: core_def)
  from handleLose_effect[OF wf] obtain b' where r: "handleLose b = Inr b'"
    and lost: "boardState b' = Lost" and wf': "wf_board b'" and td: "tileData b' = tileData b"
    and bc': "bombCount b' = bombCount b"
    and tl: "tilesLeftToOpenToWin b' = tilesLeftToOpenToWin b"
    and cells: "\<forall>q. isPointInBounds b q \<longrightarrow> cell (tileState b') q =
        (if loseCond b q then (cell (tileState b) q)\<lparr>isOpen := True\<rparr> else cell (tileState b) q)"
    by blast
  have lto: "leftToOpen b' p = leftToOpen b p" if "isPointInBounds b p" for p
    using cells that td by (auto simp: leftToOpen_def loseCond_def)
  have cn: "cnt b' = cnt b" using cnt_cong[OF wf td lto] by simp
  have "core b'"
    unfolding core_def using wf' data_ok_cong[OF td] ok cn tl c bc bc' td by simp
  then have "inv b'" using lost pos cn hasEmpty_cong[OF td] by (simp add: inv_def)
  with r lost show ?thesis by simp
qed

lemma filter_le:
  assumes "\<forall>x \<in> set xs. F x \<longrightarrow> B x"
  shows "length (filter F xs) \<le> length (filter B xs)"
  using assms by (induction xs) auto

lemma filter_less:
  assumes "\<forall>x \<in> set xs. F x \<longrightarrow> B x" "q \<in> set xs" "B q" "\<not> F q"
  shows "length (filter F xs) < length (filter B xs)"
  using assms
proof (induction xs)
  case Nil
  then show ?case by simp
next
  case (Cons x xs)
  show ?case
  proof (cases "q = x")
    case True
    have "length (filter F xs) \<le> length (filter B xs)" using Cons.prems(1) by (intro filter_le) auto
    with True Cons.prems show ?thesis by simp
  next
    case False
    with Cons have "length (filter F xs) < length (filter B xs)" by auto
    with Cons.prems(1) show ?thesis by auto
  qed
qed

lemma pigeonhole:
  assumes "length (filter F xs) = length (filter B xs)" "q \<in> set xs" "B q" "\<not> F q"
  shows "\<exists>f \<in> set xs. F f \<and> \<not> B f"
proof (rule ccontr)
  assume "\<not> (\<exists>f \<in> set xs. F f \<and> \<not> B f)"
  then have "\<forall>x \<in> set xs. F x \<longrightarrow> B x" by blast
  from filter_less[OF this assms(2,3,4)] assms(1) show False by simp
qed

lemma chord_bomb_leaves_flag:
  assumes wf: "wf_board b" and ok: "data_ok b" and inb: "isPointInBounds b p"
    and td: "cell (tileData b) p = EmptyTile k"
    and fl: "length (filter (\<lambda>q. \<not> isOpen (cell (tileState b) q) \<and> state (cell (tileState b) q) = Flag)
                   (filter (isPointInBounds b) (eightWayNeighbors p))) = k"
    and q: "q \<in> set (eightWayNeighbors p)" "isPointInBounds b q"
      "state (cell (tileState b) q) \<noteq> Flag" "cell (tileData b) q = BombTile"
  shows "\<exists>f. isPointInBounds b f \<and> state (cell (tileState b) f) = Flag \<and>
             cell (tileData b) f \<noteq> BombTile"
proof -
  let ?F = "\<lambda>q. isPointInBounds b q \<and> \<not> isOpen (cell (tileState b) q) \<and> state (cell (tileState b) q) = Flag"
  let ?B = "\<lambda>q. isPointInBounds b q \<and> cell (tileData b) q = BombTile"
  have "get (tileData b) p = Inr (EmptyTile k)" using board_gets(2)[OF wf inb] td by simp
  with ok inb have "k = trueBombNeighbors b p" by (auto simp: data_ok_def)
  also have "\<dots> = length (filter ?B (eightWayNeighbors p))"
  proof -
    have "(isPointInBounds b x \<and> get (tileData b) x = Inr BombTile) = ?B x" for x
      using board_gets(2)[OF wf, of x] by (cases "isPointInBounds b x") simp_all
    then show ?thesis unfolding trueBombNeighbors_def by simp
  qed
  finally have kb: "k = length (filter ?B (eightWayNeighbors p))" .
  have "length (filter ?F (eightWayNeighbors p)) = k"
    using fl unfolding filter_filter .
  with kb have "length (filter ?F (eightWayNeighbors p)) = length (filter ?B (eightWayNeighbors p))"
    by simp
  moreover have "?B q" using q(2,4) by simp
  moreover have "\<not> ?F q" using q(3) by simp
  ultimately obtain f where "?F f" "\<not> ?B f"
    using pigeonhole[of ?F "eightWayNeighbors p" ?B q] q(1) by blast
  then show ?thesis by blast
qed


lemma opens_closed:
  "opens b ps b' \<Longrightarrow> p \<in> set ps \<Longrightarrow>
     \<not> isOpen (cell (tileState b) p) \<and> state (cell (tileState b) p) = Default"
  by (simp add: opens_def)

lemma opens_other:
  "opens b ps b' \<Longrightarrow> isPointInBounds b p \<Longrightarrow> p \<notin> set ps \<Longrightarrow>
     cell (tileState b') p = cell (tileState b) p"
  by (simp add: opens_def)

lemma openNeighbors_chord:
  assumes wf: "wf_board b" and inb: "isPointInBounds b p"
    and op: "isOpen (cell (tileState b) p)" and td: "cell (tileData b) p = EmptyTile k"
    and nbrs: "nbrs = filter (isPointInBounds b) (eightWayNeighbors p)"
    and flag: "flag = filter (\<lambda>q. \<not> isOpen (cell (tileState b) q) \<and> state (cell (tileState b) q) = Flag) nbrs"
    and toOpen: "toOpen = filter (\<lambda>q. \<not> isOpen (cell (tileState b) q) \<and> state (cell (tileState b) q) \<noteq> Flag) nbrs"
  shows "length flag \<noteq> k \<Longrightarrow> openNeighbors p b = Inr b"
    and "length flag = k \<Longrightarrow> openAll toOpen b = Inr b2 \<Longrightarrow> wf_board b2 \<Longrightarrow>
         tileData b2 = tileData b \<Longrightarrow>
         openNeighbors p b =
           (if \<exists>q \<in> set toOpen. cell (tileData b) q = BombTile then handleLose b2 else checkWin b2)"
proof -
  note on = openNeighbors_wf[OF wf inb op td, folded nbrs, folded flag toOpen]
  show "length flag \<noteq> k \<Longrightarrow> openNeighbors p b = Inr b"
    by (subst on) simp
  assume eq: "length flag = k" and r: "openAll toOpen b = Inr b2" and wf2: "wf_board b2"
    and td2: "tileData b2 = tileData b"
  have "\<forall>x \<in> set toOpen. isPointInBounds b2 x"
    unfolding toOpen nbrs inb_cong[OF td2] by simp
  from anyBomb_eq[OF wf2 this]
  have ab: "anyBomb toOpen b2 = Inr (\<exists>q \<in> set toOpen. cell (tileData b) q = BombTile)"
    by (simp only: td2)
  show "openNeighbors p b =
           (if \<exists>q \<in> set toOpen. cell (tileData b) q = BombTile then handleLose b2 else checkWin b2)"
    by (subst on) (simp add: eq r ab)
qed

lemma click_cases:
  assumes i: "inv b" and act: "boardState b = Active" and inb: "isPointInBounds b p"
  shows "\<exists>ps b2. opens b ps b2 \<and> core b2 \<and>
           ((ps = [] \<and> clickTile p b = Inr b) \<or>
            (clean b2 \<and> clickTile p b = checkWin b2) \<or>
            ((hasEmpty b2 \<longrightarrow> 0 < cnt b2) \<and> clickTile p b = handleLose b2))"
proof -
  from i act have co: "core b" and cl: "clean b" and pos: "hasEmpty b \<longrightarrow> 0 < cnt b"
    by (simp_all add: inv_def)
  from co have wf: "wf_board b" and ok: "data_ok b" by (simp_all add: core_def)
  note g = board_gets[OF wf inb]
  let ?ts = "cell (tileState b) p"
  let ?td = "cell (tileData b) p"
  have same: "\<exists>ps b2. opens b ps b2 \<and> core b2 \<and>
           ((ps = [] \<and> clickTile p b = Inr b) \<or>
            (clean b2 \<and> clickTile p b = checkWin b2) \<or>
            ((hasEmpty b2 \<longrightarrow> 0 < cnt b2) \<and> clickTile p b = handleLose b2))"
    if "clickTile p b = Inr b"
    using that opens_refl[of b] co by blast
  show ?thesis
  proof (cases "isOpen ?ts")
    case False
    have ck: "clickTile p b = openTile p b" using act g False by (simp add: clickTile_def)
    show ?thesis
    proof (cases "state ?ts = Default")
      case flagged: False
      then have "clickTile p b = Inr b" using ck g by (simp add: openTile_def)
      then show ?thesis by (rule same)
    next
      case True
      from setTileOpen_opens_aux(1)[of b p True] wf inb False True ok obtain ps b2 where
        r: "setTileOpen p True b = Inr b2" and o: "opens b ps b2"
        and d: "\<forall>q \<in> set ps. q \<noteq> p \<longrightarrow> cell (tileData b) q \<noteq> BombTile"
        by blast
      have wf2: "wf_board b2" using o wf by (rule opens_wf)
      have td2: "tileData b2 = tileData b" using opens_frame[OF o] by (rule frame_tileData)
      have co2: "core b2" using co o by (rule core_opens)
      have g2: "get (tileData b2) p = Inr ?td"
        using board_gets(2)[OF wf2, of p] inb inb_cong[OF td2] td2 by simp
      show ?thesis
      proof (cases "?td = BombTile")
        case bomb: True
        have e: "clickTile p b = handleLose b2"
          using ck g True r g2 bomb by (simp add: openTile_def)
        let ?b1 = "b\<lparr>tileState := writeBack (tileState b) p (?ts\<lparr>isOpen := True, wasClicked := True\<rparr>),
                      tileChangedSignal := tileChangedSignal b @ [p]\<rparr>"
        have "setTileOpen p True b = Inr ?b1"
          using setTileOpen_wf[OF wf inb, of True] False True bomb by simp
        then have b2: "b2 = ?b1" using r by simp
        have o1: "opens b [p] b2"
          using open_one[OF wf inb False True, of "tilesLeftToOpenToWin b" True] bomb b2 by simp
        have "cnt b2 = cnt b" using opens_cnt[OF wf o1] bomb by simp
        then have "hasEmpty b2 \<longrightarrow> 0 < cnt b2" using pos hasEmpty_cong[OF td2] by simp
        with o co2 e show ?thesis by blast
      next
        case nobomb: False
        have e: "clickTile p b = checkWin b2"
          using ck g True r g2 nobomb by (simp add: openTile_def)
        have "\<forall>q \<in> set ps. cell (tileData b) q \<noteq> BombTile" using d nobomb by auto
        then have "clean b2" by (rule clean_opens[OF cl o])
        with o co2 e show ?thesis by blast
      qed
    qed
  next
    case True
    have ck: "clickTile p b = openNeighbors p b" using act g True by (simp add: clickTile_def)
    have "?td \<noteq> BombTile" using cl inb True unfolding clean_def by blast
    then obtain k where td: "?td = EmptyTile k" by (cases ?td) auto
    let ?flag = "filter (\<lambda>q. \<not> isOpen (cell (tileState b) q) \<and> state (cell (tileState b) q) = Flag)
                   (filter (isPointInBounds b) (eightWayNeighbors p))"
    let ?open = "filter (\<lambda>q. \<not> isOpen (cell (tileState b) q) \<and> state (cell (tileState b) q) \<noteq> Flag)
                   (filter (isPointInBounds b) (eightWayNeighbors p))"
    note on = openNeighbors_chord[OF wf inb True td refl refl refl]
    show ?thesis
    proof (cases "length ?flag = k")
      case False
      then have "clickTile p b = Inr b" using ck on(1) by simp
      then show ?thesis by (rule same)
    next
      case eq: True
      have all: "\<forall>x \<in> set ?open. isPointInBounds b x" by simp
      from openAll_opens[OF wf all] ok obtain ps b2 where
        r: "openAll ?open b = Inr b2" and o: "opens b ps b2"
        and d: "\<forall>x \<in> set ps. cell (tileData b) x = BombTile \<longrightarrow> x \<in> set ?open"
        by blast
      have wf2: "wf_board b2" using o wf by (rule opens_wf)
      have td2: "tileData b2 = tileData b" using opens_frame[OF o] by (rule frame_tileData)
      have co2: "core b2" using co o by (rule core_opens)
      note on2 = on(2)[OF eq r wf2 td2]
      show ?thesis
      proof (cases "\<exists>q \<in> set ?open. cell (tileData b) q = BombTile")
        case False
        then have e: "clickTile p b = checkWin b2" unfolding ck on2 by (simp only: if_False)
        have "\<forall>q \<in> set ps. cell (tileData b) q \<noteq> BombTile" using d False by auto
        then have "clean b2" by (rule clean_opens[OF cl o])
        with o co2 e show ?thesis by blast
      next
        case True
        then have e: "clickTile p b = handleLose b2" unfolding ck on2 by (simp only: if_True)
        from True obtain q where "q \<in> set ?open" and qb: "cell (tileData b) q = BombTile" by blast
        then have q: "q \<in> set (eightWayNeighbors p)" "isPointInBounds b q"
          "state (cell (tileState b) q) \<noteq> Flag" "cell (tileData b) q = BombTile" by simp_all
        from chord_bomb_leaves_flag[OF wf ok inb td eq q] obtain f where
          f: "isPointInBounds b f" "state (cell (tileState b) f) = Flag"
            "cell (tileData b) f \<noteq> BombTile" by blast
        have "f \<notin> set ps" using opens_closed[OF o] f(2) by auto
        then have "cell (tileState b2) f = cell (tileState b) f" using opens_other[OF o f(1)] by simp
        then have "leftToOpen b2 f" using f td2 by (simp add: leftToOpen_def)
        then have "0 < cnt b2" using cnt_pos[OF wf2, of f] f(1) inb_cong[OF td2] by simp
        with o co2 e show ?thesis by blast
      qed
    qed
  qed
qed

lemma inv_started:
  assumes i: "inv b" and ns: "boardState b = NotStarted"
  shows "inv (set_boardState Active b)"
proof -
  let ?b = "set_boardState Active b"
  have td: "tileData ?b = tileData b" and ts: "tileState ?b = tileState b"
    and st: "boardState ?b = Active"
    and tl: "tilesLeftToOpenToWin ?b = tilesLeftToOpenToWin b" and bc: "bombCount ?b = bombCount b"
    by (simp_all add: set_boardState_def)
  have lto: "leftToOpen ?b = leftToOpen b" by (simp add: leftToOpen_def fun_eq_iff td ts)
  have cn: "cnt ?b = cnt b" by (simp add: cnt_def lto td)
  have wf: "wf_board ?b = wf_board b" by (simp add: wf_board_def td ts)
  have cl: "clean ?b = clean b" by (simp add: clean_def td ts inb_cong[OF td])
  have co: "core ?b = core b" by (simp add: core_def wf data_ok_cong[OF td] cn tl bc td)
  show ?thesis using i ns
    by (simp add: inv_def co cl cn st hasEmpty_cong[OF td])
qed

lemma inv_flip:
  assumes i: "inv b" and act: "boardState b = Active" and inb: "isPointInBounds b p"
    and closed: "\<not> isOpen (cell (tileState b) p)"
    and b': "b' = b\<lparr>tileState := writeBack (tileState b) p ((cell (tileState b) p)\<lparr>state := m\<rparr>),
                    tileChangedSignal := sig\<rparr>"
  shows "inv b'"
proof -
  from i act have co: "core b" and cl: "clean b" and pos: "hasEmpty b \<longrightarrow> 0 < cnt b"
    by (simp_all add: inv_def)
  from co have wf: "wf_board b" and ok: "data_ok b"
    and c: "tilesLeftToOpenToWin b = int (cnt b)"
    and bc: "bombCount b = length (filter (\<lambda>t. t = BombTile) (array (tileData b)))"
    by (simp_all add: core_def)
  note w = write_tile[OF wf inb b']
  have td: "tileData b' = tileData b" using w(1) by (rule frame_tileData)
  have st: "boardState b' = Active" using w(1) act by (simp add: frame_def)
  have bc': "bombCount b' = bombCount b" using w(1) by (simp add: frame_def)
  have lto: "leftToOpen b' q = leftToOpen b q" if "isPointInBounds b q" for q
    using w(5)[OF that] closed td by (simp add: leftToOpen_def)
  have cn: "cnt b' = cnt b" using cnt_cong[OF wf td lto] by simp
  have "core b'"
    unfolding core_def using w(2) data_ok_cong[OF td] ok cn w(3) c bc bc' td by simp
  moreover have "clean b'"
    unfolding clean_def
  proof (intro allI impI)
    fix q assume a: "isPointInBounds b' q \<and> isOpen (cell (tileState b') q)"
    then have iq: "isPointInBounds b q" using inb_cong[OF td] by simp
    have ne: "q \<noteq> p" using a w(5)[OF iq] closed by auto
    then have "cell (tileState b') q = cell (tileState b) q" using w(5)[OF iq] by simp
    then show "state (cell (tileState b') q) = Default \<and> cell (tileData b') q \<noteq> BombTile"
      using a iq cl td by (simp add: clean_def)
  qed
  ultimately show ?thesis using st pos cn hasEmpty_cong[OF td] by (simp add: inv_def)
qed

lemma inv_toggle_active:
  assumes i: "inv b" and act: "boardState b = Active"
  shows "inv (after (changeTileState p b))"
proof (cases "isPointInBounds b p")
  case False
  from i have wf: "wf_board b" by (simp add: inv_def core_def)
  have "get (tileState b) p = Inl (OutOfBounds p)"
    using False wf by (simp add: get_oob wf_board_inb isPointInBounds_def)
  then have "after (changeTileState p b) = b"
    using act by (simp add: changeTileState_def after_def)
  with i show ?thesis by simp
next
  case True
  from i have wf: "wf_board b" by (simp add: inv_def core_def)
  note g = board_gets[OF wf True]
  show ?thesis
  proof (cases "isOpen (cell (tileState b) p)")
    case op: True
    then have "after (changeTileState p b) = b"
      using act g by (simp add: changeTileState_def after_def)
    with i show ?thesis by simp
  next
    case False
    define m where "m = (case state (cell (tileState b) p) of Default \<Rightarrow> Flag | Flag \<Rightarrow> Default)"
    define b' where "b' = b\<lparr>tileState := writeBack (tileState b) p ((cell (tileState b) p)\<lparr>state := m\<rparr>),
                    tileChangedSignal := tileChangedSignal b @ [p]\<rparr>"
    have "changeTileState p b = Inr b'"
      using act g False by (simp add: changeTileState_def b'_def m_def)
    then have "after (changeTileState p b) = b'" by (simp add: after_def)
    moreover have "inv b'" using inv_flip[OF i act True False b'_def] .
    ultimately show ?thesis by simp
  qed
qed

lemma changeTileState_started:
  "boardState b = NotStarted \<Longrightarrow>
     changeTileState p b = changeTileState p (set_boardState Active b)"
  by (simp add: changeTileState_def set_boardState_def)

lemma clickTile_started:
  "boardState b = NotStarted \<Longrightarrow> clickTile p b = clickTile p (set_boardState Active b)"
  by (simp add: clickTile_def set_boardState_def)

lemma inv_toggle:
  assumes i: "inv b"
  shows "inv (after (changeTileState p b))"
proof (cases "boardState b")
  case NotStarted
  have "inv (after (changeTileState p (set_boardState Active b)))"
    using inv_started[OF i NotStarted] by (rule inv_toggle_active) (simp add: set_boardState_def)
  then show ?thesis using changeTileState_started[OF NotStarted] by simp
next
  case Active
  with i show ?thesis by (rule inv_toggle_active)
next
  case Won
  then have "after (changeTileState p b) = b" by (simp add: changeTileState_def after_def)
  with i show ?thesis by simp
next
  case Lost
  then have "after (changeTileState p b) = b" by (simp add: changeTileState_def after_def)
  with i show ?thesis by simp
qed

lemma inv_click_active:
  assumes i: "inv b" and act: "boardState b = Active"
  shows "inv (after (clickTile p b))"
proof (cases "isPointInBounds b p")
  case False
  from i have wf: "wf_board b" by (simp add: inv_def core_def)
  have "get (tileState b) p = Inl (OutOfBounds p)"
    using False wf by (simp add: get_oob wf_board_inb isPointInBounds_def)
  then have "after (clickTile p b) = b"
    using act by (simp add: clickTile_def after_def)
  with i show ?thesis by simp
next
  case True
  from click_cases[OF i act True] obtain ps b2 where
    o: "opens b ps b2" and co: "core b2" and
    c: "(ps = [] \<and> clickTile p b = Inr b) \<or>
        (clean b2 \<and> clickTile p b = checkWin b2) \<or>
        ((hasEmpty b2 \<longrightarrow> 0 < cnt b2) \<and> clickTile p b = handleLose b2)" by blast
  have act2: "boardState b2 = Active" using opens_frame[OF o] act by (simp add: frame_def)
  from c show ?thesis
  proof (elim disjE conjE)
    assume "clickTile p b = Inr b"
    with i show ?thesis by (simp add: after_def)
  next
    assume cl: "clean b2" and e: "clickTile p b = checkWin b2"
    from checkWin_inv[OF co cl act2] obtain b' where "checkWin b2 = Inr b'" "inv b'" by blast
    with e show ?thesis by (simp add: after_def)
  next
    assume pos: "hasEmpty b2 \<longrightarrow> 0 < cnt b2" and e: "clickTile p b = handleLose b2"
    from handleLose_inv[OF co pos] obtain b' where "handleLose b2 = Inr b'" "inv b'" by blast
    with e show ?thesis by (simp add: after_def)
  qed
qed

lemma inv_click:
  assumes i: "inv b"
  shows "inv (after (clickTile p b))"
proof (cases "boardState b")
  case NotStarted
  have "inv (after (clickTile p (set_boardState Active b)))"
    using inv_started[OF i NotStarted] by (rule inv_click_active) (simp add: set_boardState_def)
  then show ?thesis using clickTile_started[OF NotStarted] by simp
next
  case Active
  with i show ?thesis by (rule inv_click_active)
next
  case Won
  then have "after (clickTile p b) = b" by (simp add: clickTile_def after_def)
  with i show ?thesis by simp
next
  case Lost
  then have "after (clickTile p b) = b" by (simp add: clickTile_def after_def)
  with i show ?thesis by simp
qed

lemma inv_play: "inv b \<Longrightarrow> inv (play ops b)"
proof (induction ops arbitrary: b)
  case Nil
  then show ?case by simp
next
  case (Cons op ops)
  show ?case
  proof (cases op)
    case (Click p)
    with Cons show ?thesis by (simp add: inv_click)
  next
    case (ToggleFlag p)
    with Cons show ?thesis by (simp add: inv_toggle)
  qed
qed

section \<open>What a call of the open primitive reads and writes\<close>

lemma opens_gets:
  assumes wf: "wf_board b" and o: "opens b ps b'"
  shows "\<And>q. q \<in> set ps \<Longrightarrow>
           \<exists>ts ts'. get (tileState b) q = Inr ts \<and> \<not> isOpen ts \<and> state ts = Default \<and>
                    get (tileState b') q = Inr ts' \<and> isOpen ts'"
    and "\<And>q. q \<notin> set ps \<Longrightarrow> get (tileState b') q = get (tileState b) q"
proof -
  have wf': "wf_board b'" using o wf by (rule opens_wf)
  note f = opens_frame[OF o]
  have inb': "isPointInBounds b' = isPointInBounds b" using f by (rule frame_inb)
  { fix q assume q: "q \<in> set ps"
    then have iq: "isPointInBounds b q" using o by (simp add: opens_def)
    have "\<not> isOpen (cell (tileState b) q)" "state (cell (tileState b) q) = Default"
      "isOpen (cell (tileState b') q)"
      using o q by (simp_all add: opens_def)
    then show "\<exists>ts ts'. get (tileState b) q = Inr ts \<and> \<not> isOpen ts \<and> state ts = Default \<and>
                    get (tileState b') q = Inr ts' \<and> isOpen ts'"
      using board_gets(1)[OF wf iq] board_gets(1)[OF wf', of q] iq inb' by simp }
  { fix q assume q: "q \<notin> set ps"
    show "get (tileState b') q = get (tileState b) q"
    proof (cases "isPointInBounds b q")
      case True
      then show ?thesis
        using board_gets(1)[OF wf True] board_gets(1)[OF wf', of q] inb' opens_other[OF o True q]
        by simp
    next
      case False
      then show ?thesis using get_frame_oob[OF wf f] by simp
    qed }
qed

section \<open>The flood fill opens no bomb\<close>

lemma frame_play_data:
  "tileData (after (clickTile p b)) = tileData b \<and> tileData (after (changeTileState p b)) = tileData b"
  if "inv b" for p b
proof
  from that have wf: "wf_board b" by (simp add: inv_def core_def)
  show "tileData (after (changeTileState p b)) = tileData b"
    by (auto simp: changeTileState_def after_def set_boardState_def Let_def split: sum.splits)
  have active: "tileData (after (clickTile p b)) = tileData b"
    if i: "inv b" and act: "boardState b = Active" for b
  proof (cases "isPointInBounds b p")
    case False
    from i have wf: "wf_board b" by (simp add: inv_def core_def)
    have "get (tileState b) p = Inl (OutOfBounds p)"
      using False wf by (simp add: get_oob wf_board_inb isPointInBounds_def)
    then show ?thesis using act by (simp add: clickTile_def after_def)
  next
    case True
    from click_cases[OF i act True] obtain ps b2 where
      o: "opens b ps b2" and co: "core b2" and
      c: "(ps = [] \<and> clickTile p b = Inr b) \<or>
          (clean b2 \<and> clickTile p b = checkWin b2) \<or>
          ((hasEmpty b2 \<longrightarrow> 0 < cnt b2) \<and> clickTile p b = handleLose b2)" by blast
    have wf2: "wf_board b2" using co by (simp add: core_def)
    have td2: "tileData b2 = tileData b" using opens_frame[OF o] by (rule frame_tileData)
    have nn: "0 \<le> tilesLeftToOpenToWin b2" using co by (simp add: core_def)
    from c show ?thesis
    proof (elim disjE conjE)
      assume "clickTile p b = Inr b"
      then show ?thesis by (simp add: after_def)
    next
      assume e: "clickTile p b = checkWin b2"
      show ?thesis
      proof (cases "tilesLeftToOpenToWin b2 = 0")
        case True
        with checkWin_effect[OF wf2 nn] obtain b' where
          "checkWin b2 = Inr b'" "tileData b' = tileData b2" by blast
        with e td2 show ?thesis by (simp add: after_def)
      next
        case False
        with checkWin_effect[OF wf2 nn] have "checkWin b2 = Inr b2" by simp
        with e td2 show ?thesis by (simp add: after_def)
      qed
    next
      assume e: "clickTile p b = handleLose b2"
      from handleLose_effect[OF wf2] obtain b' where
        "handleLose b2 = Inr b'" "tileData b' = tileData b2" by blast
      with e td2 show ?thesis by (simp add: after_def)
    qed
  qed
  show "tileData (after (clickTile p b)) = tileData b"
  proof (cases "boardState b")
    case NotStarted
    from active[OF inv_started[OF that NotStarted]]
    show ?thesis using clickTile_started[OF NotStarted] by (simp add: set_boardState_def)
  next
    case Active
    with that show ?thesis by (intro active)
  next
    case Won
    then show ?thesis by (simp add: clickTile_def after_def)
  next
    case Lost
    then show ?thesis by (simp add: clickTile_def after_def)
  qed
qed

lemma play_tileData: "inv b \<Longrightarrow> tileData (play ops b) = tileData b"
proof (induction ops arbitrary: b)
  case Nil
  then show ?case by simp
next
  case (Cons op ops)
  show ?case
  proof (cases op)
    case (Click p)
    with Cons.prems Cons.IH[OF inv_click[OF Cons.prems, of p]] frame_play_data[OF Cons.prems, of p]
    show ?thesis by simp
  next
    case (ToggleFlag p)
    with Cons.prems Cons.IH[OF inv_toggle[OF Cons.prems, of p]] frame_play_data[OF Cons.prems, of p]
    show ?thesis by simp
  qed
qed

text \<open>
  Claim C10: on every board that the constructor and a sequence of calls produce, an empty tile
  with number 0 has no bomb among its eight-way neighbours in bounds, so the recursion of
  \<^verbatim>\<open>setTileOpen\<close> never enters a bomb: a call of \<^verbatim>\<open>setTileOpen\<close> at a point opens and notifies no
  bomb tile other than the tile at that point itself, and leaves every other bomb tile as it
  was. (The calls at a point itself are the direct click and the chord loop; the only other
  write of \<^verbatim>\<open>isOpen\<close> is the loss reveal.)
\<close>

theorem flood_fill_opens_no_bomb:
  assumes c: "constructor w h bombsArray = Inr b0" and b: "b = play ops b0"
  shows "(\<forall>p q. get (tileData b) p = Inr (EmptyTile 0) \<and> q \<in> set (eightWayNeighbors p)
                 \<longrightarrow> get (tileData b) q \<noteq> Inr BombTile) \<and>
         (\<forall>point clicked. isPointInBounds b point \<longrightarrow>
            (\<exists>ps b'. setTileOpen point clicked b = Inr b' \<and>
               tileChangedSignal b' = tileChangedSignal b @ ps \<and>
               (\<forall>q \<in> set ps. q \<noteq> point \<longrightarrow> get (tileData b) q \<noteq> Inr BombTile) \<and>
               (\<forall>q. q \<noteq> point \<and> get (tileData b) q = Inr BombTile
                     \<longrightarrow> get (tileState b') q = get (tileState b) q)))"
proof (intro conjI allI impI)
  have i: "inv b" unfolding b using inv_constructor[OF c] by (rule inv_play)
  then have wf: "wf_board b" and ok: "data_ok b" by (simp_all add: inv_def core_def)
  { fix p q
    assume a: "get (tileData b) p = Inr (EmptyTile 0) \<and> q \<in> set (eightWayNeighbors p)"
    note ip = get_data_Inr_inb[OF wf conjunct1[OF a]]
    show "get (tileData b) q \<noteq> Inr BombTile"
    proof
      assume bomb: "get (tileData b) q = Inr BombTile"
      note iq = get_data_Inr_inb[OF wf bomb]
      from data_ok_zero[OF ok wf ip(1) ip(2)[symmetric] conjunct2[OF a] iq(1)] iq(2)
      show False by simp
    qed }
  { fix point clicked
    assume inb: "isPointInBounds b point"
    from setTileOpen_opens_aux(1)[of b point clicked] wf inb ok obtain ps b' where
      r: "setTileOpen point clicked b = Inr b'" and o: "opens b ps b'"
      and d: "\<forall>q \<in> set ps. q \<noteq> point \<longrightarrow> cell (tileData b) q \<noteq> BombTile"
      by blast
    have 1: "tileChangedSignal b' = tileChangedSignal b @ ps" using o by (simp add: opens_def)
    have nb: "get (tileData b) q \<noteq> Inr BombTile" if "q \<in> set ps" "q \<noteq> point" for q
      using d that get_data_Inr_inb(2)[OF wf, of q BombTile] by auto
    then have 2: "\<forall>q \<in> set ps. q \<noteq> point \<longrightarrow> get (tileData b) q \<noteq> Inr BombTile" by blast
    have 3: "\<forall>q. q \<noteq> point \<and> get (tileData b) q = Inr BombTile
                     \<longrightarrow> get (tileState b') q = get (tileState b) q"
      using nb opens_gets(2)[OF wf o] by blast
    show "\<exists>ps b'. setTileOpen point clicked b = Inr b' \<and>
               tileChangedSignal b' = tileChangedSignal b @ ps \<and>
               (\<forall>q \<in> set ps. q \<noteq> point \<longrightarrow> get (tileData b) q \<noteq> Inr BombTile) \<and>
               (\<forall>q. q \<noteq> point \<and> get (tileData b) q = Inr BombTile
                     \<longrightarrow> get (tileState b') q = get (tileState b) q)"
      by (intro exI[of _ ps] exI[of _ b'] conjI r 1 2 3) }
qed

theorem flood_fill_opens_no_bomb_witness:
  "constructor 3 1 [True, False, False] = Inr board_3x1 \<and>
   get (tileData (play [ToggleFlag (Point 0 0)] board_3x1)) (Point 2 0) = Inr (EmptyTile 0) \<and>
   Point 1 0 \<in> set (eightWayNeighbors (Point 2 0)) \<and>
   get (tileData (play [ToggleFlag (Point 0 0)] board_3x1)) (Point 1 0) \<noteq> Inr BombTile \<and>
   isPointInBounds (play [ToggleFlag (Point 0 0)] board_3x1) (Point 2 0) \<and>
   (\<exists>ps b'. setTileOpen (Point 2 0) True (play [ToggleFlag (Point 0 0)] board_3x1) = Inr b' \<and>
      (\<forall>q \<in> set ps. q \<noteq> Point 2 0 \<longrightarrow>
         get (tileData (play [ToggleFlag (Point 0 0)] board_3x1)) q \<noteq> Inr BombTile))"
proof -
  let ?b = "play [ToggleFlag (Point 0 0)] board_3x1"
  have c: "constructor 3 1 [True, False, False] = Inr board_3x1"
    unfolding board_3x1_def by code_simp
  have h: "get (tileData ?b) (Point 2 0) = Inr (EmptyTile 0)"
    "Point 1 0 \<in> set (eightWayNeighbors (Point 2 0))"
    "isPointInBounds ?b (Point 2 0)"
    unfolding board_3x1_def by code_simp+
  from flood_fill_opens_no_bomb[OF c refl, of "[ToggleFlag (Point 0 0)]"] h c
  show ?thesis by blast
qed

section \<open>The counter of tiles left to open\<close>

text \<open>An empty tile that is open and not flagged: what \<^verbatim>\<open>setTileOpen\<close> leaves behind.\<close>

definition openedEmpty :: "MinesweeperBoard \<Rightarrow> Point \<Rightarrow> bool" where
  "openedEmpty b point =
     (case get (tileData b) point of
        Inl e \<Rightarrow> False
      | Inr td \<Rightarrow>
         (case get (tileState b) point of
            Inl e \<Rightarrow> False
          | Inr ts \<Rightarrow> td \<noteq> BombTile \<and> isOpen ts \<and> state ts = Default))"

lemma count_empty:
  assumes wf: "wf_board b"
  shows "length (filter (\<lambda>p. cell (tileData b) p \<noteq> BombTile) (points (tileData b)))
         = cnt b + length (filter (openedEmpty b) (points (tileData b)))"
proof -
  let ?pts = "points (tileData b)"
  let ?E = "\<lambda>p. cell (tileData b) p \<noteq> BombTile"
  let ?O = "\<lambda>p. isOpen (cell (tileState b) p) \<and> state (cell (tileState b) p) = Default"
  have "length (filter ?O (filter ?E ?pts)) + length (filter (\<lambda>p. \<not> ?O p) (filter ?E ?pts))
        = length (filter ?E ?pts)"
    by (rule sum_length_filter_compl)
  moreover have "filter (\<lambda>p. \<not> ?O p) (filter ?E ?pts) = filter (leftToOpen b) ?pts"
    unfolding filter_filter by (rule filter_cong) (auto simp: leftToOpen_def)
  moreover have "filter ?O (filter ?E ?pts) = filter (openedEmpty b) ?pts"
    unfolding filter_filter
  proof (rule filter_cong)
    fix p assume "p \<in> set ?pts"
    then have inb: "isPointInBounds b p" using points_board(2)[OF wf] by simp
    show "(?E p \<and> ?O p) = openedEmpty b p"
      using board_gets(1,2)[OF wf inb] by (simp add: openedEmpty_def)
  qed simp
  ultimately show ?thesis by (simp add: cnt_def)
qed

lemma core_counter:
  assumes co: "core b"
  shows "tilesLeftToOpenToWin b =
           width (tileData b) * height (tileData b) - int (bombCount b)
           - int (length (filter (openedEmpty b) (points (tileData b))))"
proof -
  from co have wf: "wf_board b" and c: "tilesLeftToOpenToWin b = int (cnt b)"
    and bc: "bombCount b = length (filter (\<lambda>t. t = BombTile) (array (tileData b)))"
    by (simp_all add: core_def)
  have wfd: "wf_grid (tileData b)" using wf by (rule wf_board_tileData)
  have "length (filter (\<lambda>p. cell (tileData b) p \<noteq> BombTile) (points (tileData b)))
        = length (filter (\<lambda>t. t \<noteq> BombTile) (array (tileData b)))"
    by (rule count_points[OF wfd])
  moreover have "length (filter (\<lambda>t. t = BombTile) (array (tileData b)))
        + length (filter (\<lambda>t. t \<noteq> BombTile) (array (tileData b))) = length (array (tileData b))"
    by (rule sum_length_filter_compl)
  moreover have "int (length (array (tileData b))) = width (tileData b) * height (tileData b)"
    using wfd by (simp add: wf_grid_def)
  ultimately show ?thesis using count_empty[OF wf] c bc by linarith
qed

text \<open>
  Claim C5 says that the counter goes down by one whenever an empty tile first becomes open.
  The reveal on loss opens a flagged empty tile and leaves the counter as it was: on the 2x1
  board with the bomb at (0,0), after a flag on (1,0) and a click on the bomb, the empty tile
  (1,0) is open and the counter still has its initial value.
\<close>

theorem loss_reveal_keeps_counter:
  "tilesLeftToOpenToWin (play [ToggleFlag (Point 1 0), Click (Point 0 0)] board_2x1) = 1 \<and>
   tilesLeftToOpenToWin board_2x1 = 1 \<and>
   array (tileData board_2x1) = [BombTile, EmptyTile 1] \<and>
   map isOpen (array (tileState board_2x1)) = [False, False] \<and>
   map isOpen (array (tileState (play [ToggleFlag (Point 1 0), Click (Point 0 0)] board_2x1)))
     = [True, True]"
  unfolding board_2x1_def by code_simp

text \<open>
  Claim C5 as amended: on every board that the constructor and a sequence of calls produce,
  the counter starts at \<^verbatim>\<open>width * height - bombCount\<close>, is never negative, and is the initial
  value minus the number of empty tiles that are open and not flagged, the tiles that
  \<^verbatim>\<open>setTileOpen\<close> opened. A call of \<^verbatim>\<open>setTileOpen\<close> lowers it by exactly the number of empty tiles
  among the tiles it newly opens, so a bomb, an open tile and a flagged tile never lower it.
  Unless the board is lost, every open tile is an unflagged empty tile.
\<close>

theorem counter_invariant:
  assumes c: "constructor w h bombsArray = Inr b0" and b: "b = play ops b0"
  shows "tilesLeftToOpenToWin b0 = w * h - int (bombCount b0) \<and>
         bombCount b = bombCount b0 \<and>
         tilesLeftToOpenToWin b =
           w * h - int (bombCount b) - int (length (filter (openedEmpty b) (points (tileData b)))) \<and>
         0 \<le> tilesLeftToOpenToWin b \<and>
         (boardState b \<noteq> Lost \<longrightarrow>
            (\<forall>p ts. get (tileState b) p = Inr ts \<and> isOpen ts \<longrightarrow>
               state ts = Default \<and> get (tileData b) p \<noteq> Inr BombTile)) \<and>
         (\<forall>point clicked. isPointInBounds b point \<longrightarrow>
            (\<exists>ps b'. setTileOpen point clicked b = Inr b' \<and>
               tileChangedSignal b' = tileChangedSignal b @ ps \<and>
               (\<forall>q \<in> set ps. \<exists>ts. get (tileState b) q = Inr ts \<and> \<not> isOpen ts \<and> state ts = Default) \<and>
               tilesLeftToOpenToWin b' =
                 tilesLeftToOpenToWin b
                 - int (length (filter (\<lambda>q. get (tileData b) q \<noteq> Inr BombTile) ps))))"
proof -
  note pr = constructor_props[OF c]
  have i0: "inv b0" using c by (rule inv_constructor)
  have i: "inv b" unfolding b using i0 by (rule inv_play)
  then have co: "core b" by (simp add: inv_def)
  then have wf: "wf_board b" and cn: "tilesLeftToOpenToWin b = int (cnt b)"
    and bc: "bombCount b = length (filter (\<lambda>t. t = BombTile) (array (tileData b)))"
    by (simp_all add: core_def)
  have td: "tileData b = tileData b0" unfolding b using i0 by (rule play_tileData)
  have bc0: "bombCount b0 = length (filter (\<lambda>t. t = BombTile) (array (tileData b0)))"
    using i0 by (simp add: inv_def core_def)
  have 1: "tilesLeftToOpenToWin b0 = w * h - int (bombCount b0)" by (rule pr(11))
  have 2: "bombCount b = bombCount b0" using bc bc0 td by simp
  have 3: "tilesLeftToOpenToWin b =
           w * h - int (bombCount b) - int (length (filter (openedEmpty b) (points (tileData b))))"
    using core_counter[OF co] td pr(6,7) by simp
  have 4: "0 \<le> tilesLeftToOpenToWin b" using cn by simp
  have 5: "boardState b \<noteq> Lost \<longrightarrow>
            (\<forall>p ts. get (tileState b) p = Inr ts \<and> isOpen ts \<longrightarrow>
               state ts = Default \<and> get (tileData b) p \<noteq> Inr BombTile)"
  proof (intro impI allI)
    fix p ts
    assume nl: "boardState b \<noteq> Lost" and a: "get (tileState b) p = Inr ts \<and> isOpen ts"
    from i nl have cl: "clean b" by (simp add: inv_def)
    note ip = get_Inr_inb[OF wf conjunct1[OF a]]
    from cl ip a have "state ts = Default" "cell (tileData b) p \<noteq> BombTile"
      by (auto simp: clean_def)
    then show "state ts = Default \<and> get (tileData b) p \<noteq> Inr BombTile"
      using board_gets(2)[OF wf ip(1)] by simp
  qed
  have 6: "\<forall>point clicked. isPointInBounds b point \<longrightarrow>
            (\<exists>ps b'. setTileOpen point clicked b = Inr b' \<and>
               tileChangedSignal b' = tileChangedSignal b @ ps \<and>
               (\<forall>q \<in> set ps. \<exists>ts. get (tileState b) q = Inr ts \<and> \<not> isOpen ts \<and> state ts = Default) \<and>
               tilesLeftToOpenToWin b' =
                 tilesLeftToOpenToWin b
                 - int (length (filter (\<lambda>q. get (tileData b) q \<noteq> Inr BombTile) ps)))"
  proof (intro allI impI)
    fix point clicked
    assume inb: "isPointInBounds b point"
    from setTileOpen_opens_aux(1)[of b point clicked] wf inb obtain ps b' where
      r: "setTileOpen point clicked b = Inr b'" and o: "opens b ps b'" by blast
    have s: "tileChangedSignal b' = tileChangedSignal b @ ps" using o by (simp add: opens_def)
    have g: "\<forall>q \<in> set ps. \<exists>ts. get (tileState b) q = Inr ts \<and> \<not> isOpen ts \<and> state ts = Default"
      using opens_gets(1)[OF wf o] by blast
    have "filter (\<lambda>q. get (tileData b) q \<noteq> Inr BombTile) ps
        = filter (\<lambda>q. cell (tileData b) q \<noteq> BombTile) ps"
    proof (rule filter_cong)
      fix q assume "q \<in> set ps"
      then have "isPointInBounds b q" using o by (simp add: opens_def)
      then show "(get (tileData b) q \<noteq> Inr BombTile) = (cell (tileData b) q \<noteq> BombTile)"
        using board_gets(2)[OF wf] by simp
    qed simp
    then have t: "tilesLeftToOpenToWin b' = tilesLeftToOpenToWin b
                 - int (length (filter (\<lambda>q. get (tileData b) q \<noteq> Inr BombTile) ps))"
      using o by (simp add: opens_def)
    show "\<exists>ps b'. setTileOpen point clicked b = Inr b' \<and>
               tileChangedSignal b' = tileChangedSignal b @ ps \<and>
               (\<forall>q \<in> set ps. \<exists>ts. get (tileState b) q = Inr ts \<and> \<not> isOpen ts \<and> state ts = Default) \<and>
               tilesLeftToOpenToWin b' =
                 tilesLeftToOpenToWin b
                 - int (length (filter (\<lambda>q. get (tileData b) q \<noteq> Inr BombTile) ps))"
      by (intro exI[of _ ps] exI[of _ b'] conjI r s g t)
  qed
  show ?thesis by (intro conjI 1 2 3 4 5 6)
qed

theorem counter_invariant_witness:
  "constructor 3 1 [True, False, False] = Inr board_3x1 \<and>
   tilesLeftToOpenToWin board_3x1 = 3 * 1 - int (bombCount board_3x1) \<and>
   tilesLeftToOpenToWin (play [Click (Point 1 0)] board_3x1) =
     3 * 1 - int (bombCount (play [Click (Point 1 0)] board_3x1))
     - int (length (filter (openedEmpty (play [Click (Point 1 0)] board_3x1))
                     (points (tileData (play [Click (Point 1 0)] board_3x1))))) \<and>
   boardState (play [Click (Point 1 0)] board_3x1) \<noteq> Lost \<and>
   get (tileState (play [Click (Point 1 0)] board_3x1)) (Point 1 0)
     = Inr \<lparr>state = Default, isOpen = True, wasClicked = True\<rparr> \<and>
   get (tileData (play [Click (Point 1 0)] board_3x1)) (Point 1 0) \<noteq> Inr BombTile \<and>
   isPointInBounds (play [Click (Point 1 0)] board_3x1) (Point 2 0) \<and>
   (\<exists>ps b'. setTileOpen (Point 2 0) False (play [Click (Point 1 0)] board_3x1) = Inr b' \<and>
      tilesLeftToOpenToWin b' = tilesLeftToOpenToWin (play [Click (Point 1 0)] board_3x1)
        - int (length (filter (\<lambda>q. get (tileData (play [Click (Point 1 0)] board_3x1)) q
                                     \<noteq> Inr BombTile) ps)))"
proof -
  let ?b = "play [Click (Point 1 0)] board_3x1"
  have c: "constructor 3 1 [True, False, False] = Inr board_3x1"
    unfolding board_3x1_def by code_simp
  have h: "boardState ?b \<noteq> Lost"
    "get (tileState ?b) (Point 1 0) = Inr \<lparr>state = Default, isOpen = True, wasClicked = True\<rparr>"
    "isOpen \<lparr>state = Default, isOpen = True, wasClicked = True\<rparr>"
    "isPointInBounds ?b (Point 2 0)"
    unfolding board_3x1_def by code_simp+
  note t = counter_invariant[OF c refl, of "[Click (Point 1 0)]"]
  from t have 1: "tilesLeftToOpenToWin board_3x1 = 3 * 1 - int (bombCount board_3x1)" by blast
  from t have 3: "tilesLeftToOpenToWin ?b =
     3 * 1 - int (bombCount ?b)
     - int (length (filter (openedEmpty ?b) (points (tileData ?b))))" by blast
  from t h have 5: "get (tileData ?b) (Point 1 0) \<noteq> Inr BombTile" by blast
  from t h(4) have 6: "\<exists>ps b'. setTileOpen (Point 2 0) False ?b = Inr b' \<and>
      tilesLeftToOpenToWin b' = tilesLeftToOpenToWin ?b
        - int (length (filter (\<lambda>q. get (tileData ?b) q \<noteq> Inr BombTile) ps))" by blast
  show ?thesis by (intro conjI c 1 3 h(1,2,4) 5 6)
qed

section \<open>The win check\<close>

text \<open>A bomb tile that is not flagged.\<close>

definition unflaggedBomb :: "MinesweeperBoard \<Rightarrow> Point \<Rightarrow> bool" where
  "unflaggedBomb b point =
     (case get (tileData b) point of
        Inl e \<Rightarrow> False
      | Inr td \<Rightarrow>
         (case get (tileState b) point of
            Inl e \<Rightarrow> False
          | Inr ts \<Rightarrow> td = BombTile \<and> state ts \<noteq> Flag))"

lemma unflaggedBomb_winCond:
  "wf_board b \<Longrightarrow> isPointInBounds b p \<Longrightarrow> unflaggedBomb b p = winCond b p"
  by (simp add: unflaggedBomb_def winCond_def board_gets)

lemma unflaggedBomb_inb: "wf_board b \<Longrightarrow> unflaggedBomb b p \<Longrightarrow> isPointInBounds b p"
  using get_oob[of "tileData b" p]
  by (cases "isPointInBounds b p") (auto simp: unflaggedBomb_def isPointInBounds_def)

lemma opens_state:
  assumes "opens b ps b'" "isPointInBounds b p"
  shows "state (cell (tileState b') p) = state (cell (tileState b) p)"
  using assms by (cases "p \<in> set ps") (auto simp: opens_def)

lemma win_transition:
  assumes i: "inv b" and act: "boardState b = Active" and he: "hasEmpty b"
    and r: "clickTile point b = Inr b'" and z: "tilesLeftToOpenToWin b' = 0"
  shows "boardState b' = Won \<and>
         boardStateChangedSignal b' = boardStateChangedSignal b @ [Won] \<and>
         (\<exists>ps. tileChangedSignal b' =
                  tileChangedSignal b @ ps @ filter (unflaggedBomb b) (points (tileData b))) \<and>
         (\<forall>q. unflaggedBomb b q \<longrightarrow> (\<exists>ts. get (tileState b') q = Inr ts \<and> state ts = Flag))"
proof -
  from i have wf: "wf_board b" by (simp add: inv_def core_def)
  from i act he have pos: "0 < cnt b" and cn: "tilesLeftToOpenToWin b = int (cnt b)"
    by (simp_all add: inv_def core_def)
  have inb: "isPointInBounds b point"
  proof (rule ccontr)
    assume "\<not> isPointInBounds b point"
    then have "get (tileState b) point = Inl (OutOfBounds point)"
      using wf by (simp add: get_oob wf_board_inb isPointInBounds_def)
    then show False using act r by (simp add: clickTile_def)
  qed
  from click_cases[OF i act inb] obtain ps b2 where
    o: "opens b ps b2" and co: "core b2" and
    c: "(ps = [] \<and> clickTile point b = Inr b) \<or>
        (clean b2 \<and> clickTile point b = checkWin b2) \<or>
        ((hasEmpty b2 \<longrightarrow> 0 < cnt b2) \<and> clickTile point b = handleLose b2)" by blast
  note f = opens_frame[OF o]
  have wf2: "wf_board b2" using co by (simp add: core_def)
  have td2: "tileData b2 = tileData b" using f by (rule frame_tileData)
  have cn2: "tilesLeftToOpenToWin b2 = int (cnt b2)" using co by (simp add: core_def)
  have nn: "0 \<le> tilesLeftToOpenToWin b2" using cn2 by simp
  have inb2: "isPointInBounds b2 = isPointInBounds b" using f by (rule frame_inb)
  from c show ?thesis
  proof (elim disjE conjE)
    assume "clickTile point b = Inr b"
    with r z pos cn show ?thesis by simp
  next
    assume pos2: "hasEmpty b2 \<longrightarrow> 0 < cnt b2" and e: "clickTile point b = handleLose b2"
    from handleLose_effect[OF wf2] obtain bl where
      "handleLose b2 = Inr bl" "tilesLeftToOpenToWin bl = tilesLeftToOpenToWin b2" by blast
    with e r z cn2 pos2 he hasEmpty_cong[OF td2] show ?thesis by simp
  next
    assume e: "clickTile point b = checkWin b2"
    have z2: "tilesLeftToOpenToWin b2 = 0"
    proof (rule ccontr)
      assume "tilesLeftToOpenToWin b2 \<noteq> 0"
      with checkWin_effect[OF wf2 nn] e r z show False by simp
    qed
    with checkWin_effect[OF wf2 nn] obtain bw where
      rw: "checkWin b2 = Inr bw" and won: "boardState bw = Won" and wfw: "wf_board bw"
      and bs: "boardStateChangedSignal bw = boardStateChangedSignal b2 @ [Won]"
      and tdw: "tileData bw = tileData b2"
      and sig: "tileChangedSignal bw =
                tileChangedSignal b2 @ filter (winCond b2) (points (tileData b2))"
      and cells: "\<forall>q. isPointInBounds b2 q \<longrightarrow> cell (tileState bw) q =
                   (if winCond b2 q then (cell (tileState b2) q)\<lparr>state := Flag\<rparr>
                    else cell (tileState b2) q)"
      by blast
    have bw: "b' = bw" using e r rw by simp
    have wc: "winCond b2 q = unflaggedBomb b q" if "isPointInBounds b q" for q
      using opens_state[OF o that] td2 unflaggedBomb_winCond[OF wf that]
      by (simp add: winCond_def)
    have fl: "filter (winCond b2) (points (tileData b)) = filter (unflaggedBomb b) (points (tileData b))"
      using points_board(2)[OF wf] wc by (intro filter_cong) auto
    have 1: "boardState b' = Won" using won bw by simp
    have 2: "boardStateChangedSignal b' = boardStateChangedSignal b @ [Won]"
      using bs bw f by (simp add: frame_def)
    have "tileChangedSignal b' =
            tileChangedSignal b @ ps @ filter (unflaggedBomb b) (points (tileData b))"
      using sig bw o fl td2 by (simp add: opens_def)
    then have 3: "\<exists>ps. tileChangedSignal b' =
                  tileChangedSignal b @ ps @ filter (unflaggedBomb b) (points (tileData b))" ..
    have 4: "\<forall>q. unflaggedBomb b q \<longrightarrow> (\<exists>ts. get (tileState b') q = Inr ts \<and> state ts = Flag)"
    proof (intro allI impI)
      fix q assume u: "unflaggedBomb b q"
      then have iq: "isPointInBounds b q" using unflaggedBomb_inb[OF wf] by simp
      then have "winCond b2 q" using wc u by simp
      then have "state (cell (tileState bw) q) = Flag" using cells iq inb2 by simp
      moreover have "get (tileState bw) q = Inr (cell (tileState bw) q)"
        using board_gets(1)[OF wfw, of q] iq inb2 inb_cong[OF tdw] by simp
      ultimately show "\<exists>ts. get (tileState b') q = Inr ts \<and> state ts = Flag"
        using bw by simp
    qed
    show ?thesis by (intro conjI 1 2 3 4)
  qed
qed

lemma unflaggedBomb_started [simp]:
  "unflaggedBomb (set_boardState s b) = unflaggedBomb b"
proof -
  have "tileState (set_boardState s b) = tileState b" "tileData (set_boardState s b) = tileData b"
    by (simp_all add: set_boardState_def)
  then show ?thesis by (simp add: unflaggedBomb_def fun_eq_iff cong: sum.case_cong)
qed

text \<open>
  Claim C2 says that the board is won exactly when the counter is 0, and that after any
  successful open with the counter at 0 the board becomes won. On a board without an empty
  tile the counter is 0 from the start: on the 1x1 board that is a bomb, the click opens the
  bomb, the counter is 0, and the board is lost, the bomb unflagged.
\<close>

theorem all_bombs_counter_zero_lost:
  "tilesLeftToOpenToWin board_1x1_bomb = 0 \<and>
   boardState board_1x1_bomb = NotStarted \<and>
   tilesLeftToOpenToWin (play [Click (Point 0 0)] board_1x1_bomb) = 0 \<and>
   boardState (play [Click (Point 0 0)] board_1x1_bomb) = Lost \<and>
   array (tileData (play [Click (Point 0 0)] board_1x1_bomb)) = [BombTile] \<and>
   array (tileState (play [Click (Point 0 0)] board_1x1_bomb))
     = [\<lparr>state = Default, isOpen = True, wasClicked = True\<rparr>]"
  unfolding board_1x1_bomb_def by code_simp

text \<open>
  Claim C2 as amended: on a board with at least one empty tile, in every state that the
  constructor and a sequence of calls produce, the board is won exactly when the counter is 0,
  and on a won board every bomb is flagged. When a click on a board that is not won returns
  with the counter at 0, the board has become won in that call: every bomb that was not flagged
  is flagged, each with one tile-changed notification, emitted in row-major order after the
  notifications of the opened tiles, and the state change is notified.
\<close>

theorem win_check:
  assumes c: "constructor w h bombsArray = Inr b0"
    and ne: "get (tileData b0) p0 = Inr (EmptyTile k0)"
    and b: "b = play ops b0"
  shows "(boardState b = Won \<longleftrightarrow> tilesLeftToOpenToWin b = 0) \<and>
         (boardState b = Won \<longrightarrow>
            (\<forall>q. get (tileData b) q = Inr BombTile \<longrightarrow>
                 (\<exists>ts. get (tileState b) q = Inr ts \<and> state ts = Flag))) \<and>
         (\<forall>point b'. clickTile point b = Inr b' \<and> boardState b \<noteq> Won \<and>
                      tilesLeftToOpenToWin b' = 0 \<longrightarrow>
            boardState b' = Won \<and>
            boardStateChangedSignal b' =
              boardStateChangedSignal b @ (if boardState b = NotStarted then [Active, Won] else [Won]) \<and>
            (\<exists>ps. tileChangedSignal b' =
                     tileChangedSignal b @ ps @ filter (unflaggedBomb b) (points (tileData b))) \<and>
            (\<forall>q. unflaggedBomb b q \<longrightarrow> (\<exists>ts. get (tileState b') q = Inr ts \<and> state ts = Flag)))"
proof -
  have i0: "inv b0" using c by (rule inv_constructor)
  have i: "inv b" unfolding b using i0 by (rule inv_play)
  then have wf: "wf_board b" and cn: "tilesLeftToOpenToWin b = int (cnt b)"
    by (simp_all add: inv_def core_def)
  have td: "tileData b = tileData b0" unfolding b using i0 by (rule play_tileData)
  have wf0: "wf_board b0" using i0 by (simp add: inv_def core_def)
  have he0: "hasEmpty b0"
    unfolding hasEmpty_def using get_data_Inr_inb[OF wf0 ne]
    by (intro exI[of _ p0]) (simp add: eq_commute[of "EmptyTile k0"])
  then have he: "hasEmpty b" using hasEmpty_cong[OF td] by simp
  have 1: "boardState b = Won \<longleftrightarrow> tilesLeftToOpenToWin b = 0"
    using i he cn by (auto simp: inv_def)
  have 2: "boardState b = Won \<longrightarrow>
            (\<forall>q. get (tileData b) q = Inr BombTile \<longrightarrow>
                 (\<exists>ts. get (tileState b) q = Inr ts \<and> state ts = Flag))"
  proof (intro impI allI)
    fix q assume won: "boardState b = Won" and bomb: "get (tileData b) q = Inr BombTile"
    note iq = get_data_Inr_inb[OF wf bomb]
    from i won iq have "state (cell (tileState b) q) = Flag" by (simp add: inv_def)
    then show "\<exists>ts. get (tileState b) q = Inr ts \<and> state ts = Flag"
      using board_gets(1)[OF wf iq(1)] by simp
  qed
  have 3: "boardState b' = Won \<and>
            boardStateChangedSignal b' =
              boardStateChangedSignal b @ (if boardState b = NotStarted then [Active, Won] else [Won]) \<and>
            (\<exists>ps. tileChangedSignal b' =
                     tileChangedSignal b @ ps @ filter (unflaggedBomb b) (points (tileData b))) \<and>
            (\<forall>q. unflaggedBomb b q \<longrightarrow> (\<exists>ts. get (tileState b') q = Inr ts \<and> state ts = Flag))"
    if a: "clickTile point b = Inr b' \<and> boardState b \<noteq> Won \<and> tilesLeftToOpenToWin b' = 0"
    for point b'
  proof (cases "boardState b")
    case NotStarted
    let ?b1 = "set_boardState Active b"
    have i1: "inv ?b1" using i NotStarted by (rule inv_started)
    have a1: "boardState ?b1 = Active" by (simp add: set_boardState_def)
    have td1: "tileData ?b1 = tileData b" by (simp add: set_boardState_def)
    have he1: "hasEmpty ?b1" using he hasEmpty_cong[OF td1] by simp
    have r1: "clickTile point ?b1 = Inr b'" using a clickTile_started[OF NotStarted] by simp
    have z: "tilesLeftToOpenToWin b' = 0" using a by simp
    have s1: "tileChangedSignal ?b1 = tileChangedSignal b"
      "boardStateChangedSignal ?b1 = boardStateChangedSignal b @ [Active]"
      by (simp_all add: set_boardState_def)
    from win_transition[OF i1 a1 he1 r1 z] NotStarted show ?thesis
      by (simp add: s1 td1)
  next
    case Active
    from a have "clickTile point b = Inr b'" "tilesLeftToOpenToWin b' = 0" by simp_all
    from win_transition[OF i Active he this] Active show ?thesis by simp
  next
    case Won
    with a show ?thesis by simp
  next
    case Lost
    then have "clickTile point b = Inr b" by (simp add: clickTile_def)
    with a have "tilesLeftToOpenToWin b = 0" by simp
    with 1 Lost show ?thesis by simp
  qed
  show ?thesis using 1 2 3 by blast
qed

theorem win_check_witness:
  "constructor 3 1 [True, False, False] = Inr board_3x1 \<and>
   get (tileData board_3x1) (Point 1 0) = Inr (EmptyTile 1) \<and>
   clickTile (Point 2 0) board_3x1 = Inr (play [Click (Point 2 0)] board_3x1) \<and>
   boardState board_3x1 \<noteq> Won \<and>
   tilesLeftToOpenToWin (play [Click (Point 2 0)] board_3x1) = 0 \<and>
   boardState (play [Click (Point 2 0)] board_3x1) = Won \<and>
   boardStateChangedSignal (play [Click (Point 2 0)] board_3x1) = [Active, Won] \<and>
   (\<exists>ps. tileChangedSignal (play [Click (Point 2 0)] board_3x1) = ps @ [Point 0 0]) \<and>
   (\<exists>ts. get (tileState (play [Click (Point 2 0)] board_3x1)) (Point 0 0) = Inr ts \<and> state ts = Flag)"
proof -
  let ?b' = "play [Click (Point 2 0)] board_3x1"
  have c: "constructor 3 1 [True, False, False] = Inr board_3x1"
    unfolding board_3x1_def by code_simp
  have h: "get (tileData board_3x1) (Point 1 0) = Inr (EmptyTile 1)"
    "clickTile (Point 2 0) board_3x1 = Inr ?b'"
    "boardState board_3x1 \<noteq> Won"
    "tilesLeftToOpenToWin ?b' = 0"
    unfolding board_3x1_def by code_simp+
  have e: "boardState board_3x1 = NotStarted" "boardStateChangedSignal board_3x1 = []"
    "tileChangedSignal board_3x1 = []"
    "filter (unflaggedBomb board_3x1) (points (tileData board_3x1)) = [Point 0 0]"
    "unflaggedBomb board_3x1 (Point 0 0)"
    unfolding board_3x1_def by code_simp+
  note t = win_check[OF c h(1), of board_3x1 "[]", simplified]
  from t h(2,3,4) have w: "boardState ?b' = Won \<and>
      boardStateChangedSignal ?b' =
        boardStateChangedSignal board_3x1 @ (if boardState board_3x1 = NotStarted then [Active, Won] else [Won]) \<and>
      (\<exists>ps. tileChangedSignal ?b' =
               tileChangedSignal board_3x1 @ ps @ filter (unflaggedBomb board_3x1) (points (tileData board_3x1))) \<and>
      (\<forall>q. unflaggedBomb board_3x1 q \<longrightarrow> (\<exists>ts. get (tileState ?b') q = Inr ts \<and> state ts = Flag))"
    by blast
  from w have 1: "boardState ?b' = Won" by blast
  from w e have 2: "boardStateChangedSignal ?b' = [Active, Won]" by simp
  from w e have 3: "\<exists>ps. tileChangedSignal ?b' = ps @ [Point 0 0]" by simp
  from w e(5) have 4: "\<exists>ts. get (tileState ?b') (Point 0 0) = Inr ts \<and> state ts = Flag" by blast
  show ?thesis by (intro conjI c h 1 2 3 4)
qed

section \<open>Generated boards\<close>

text \<open>
  The eight-way neighbours of a point, said without the generator: the points other than the
  point itself that are at most one step away in each coordinate.
\<close>

definition adjacent :: "Point \<Rightarrow> Point \<Rightarrow> bool" where
  "adjacent p q \<longleftrightarrow> q \<noteq> p \<and> \<bar>px q - px p\<bar> \<le> 1 \<and> \<bar>py q - py p\<bar> \<le> 1"

text \<open>
  The number of bombs around a point: the cells of the grid that are adjacent to it and hold a
  bomb.
\<close>

definition bombsAround :: "MinesweeperBoard \<Rightarrow> Point \<Rightarrow> nat" where
  "bombsAround b p =
     length (filter (\<lambda>q. adjacent p q \<and> get (tileData b) q = Inr BombTile)
                    (points (tileData b)))"

lemma eightWayNeighbors_eq:
  "eightWayNeighbors (Point x y) =
     [Point (x - 1) (y - 1), Point (x - 1) y, Point (x - 1) (y + 1),
      Point x (y - 1), Point x (y + 1),
      Point (x + 1) (y - 1), Point (x + 1) y, Point (x + 1) (y + 1)]"
  by (simp add: eightWayNeighbors_def)

lemma distinct_eightWayNeighbors: "distinct (eightWayNeighbors p)"
  by (cases p) (simp add: eightWayNeighbors_eq)

lemma set_eightWayNeighbors: "set (eightWayNeighbors p) = {q. adjacent p q}"
proof (cases p)
  case (Point x y)
  show ?thesis
  proof (intro set_eqI iffI)
    fix q assume "q \<in> set (eightWayNeighbors p)"
    then show "q \<in> {q. adjacent p q}"
      unfolding Point eightWayNeighbors_eq by (auto simp: adjacent_def)
  next
    fix q assume "q \<in> {q. adjacent p q}"
    then have a: "q \<noteq> Point x y" "\<bar>px q - x\<bar> \<le> 1" "\<bar>py q - y\<bar> \<le> 1"
      by (simp_all add: adjacent_def Point)
    obtain u v where q: "q = Point u v" by (cases q)
    from a(2) q have u: "u = x - 1 \<or> u = x \<or> u = x + 1" by auto
    from a(3) q have v: "v = y - 1 \<or> v = y \<or> v = y + 1" by auto
    from a(1) q have ne: "\<not> (u = x \<and> v = y)" by simp
    from u v ne show "q \<in> set (eightWayNeighbors p)"
      unfolding Point eightWayNeighbors_eq q by auto
  qed
qed

lemma trueBombNeighbors_bombsAround:
  assumes wf: "wf_board b"
  shows "trueBombNeighbors b p = bombsAround b p"
proof -
  let ?B = "\<lambda>q. get (tileData b) q = Inr BombTile"
  have "trueBombNeighbors b p
        = card ({q. isPointInBounds b q \<and> ?B q} \<inter> set (eightWayNeighbors p))"
    unfolding trueBombNeighbors_def
    by (rule distinct_length_filter[OF distinct_eightWayNeighbors])
  also have "{q. isPointInBounds b q \<and> ?B q} \<inter> set (eightWayNeighbors p)
        = {q. adjacent p q \<and> ?B q} \<inter> set (points (tileData b))"
    unfolding set_eightWayNeighbors points_board(2)[OF wf] by auto
  also have "card \<dots> = bombsAround b p"
    unfolding bombsAround_def
    by (rule distinct_length_filter[OF points_board(1)[OF wf], symmetric])
  finally show ?thesis .
qed

text \<open>
  Claim C8 says that \<^verbatim>\<open>generate\<close> produces a board for all positive dimensions. An array holds
  at most \<open>2^32 - 1\<close> cells: for a larger \<^verbatim>\<open>width * height\<close>, \<^verbatim>\<open>new Array\<close> raises a RangeError and
  no board is produced.
\<close>

theorem generate_too_large:
  "generate 65536 65536 1 (\<lambda>i. 0) = Inl RangeError"
  by (simp add: generate_def)

text \<open>
  Claim C8 as amended: for positive dimensions with \<^verbatim>\<open>width * height\<close> at most \<open>2^32 - 1\<close>, a
  bomb count \<open>bombs\<close> with \<open>0 < bombs < w * h\<close> and every sequence of random choices (the choice
  at index \<open>i\<close> is an index between 0 and \<open>i\<close>), \<^verbatim>\<open>generate\<close> returns a board of these dimensions
  whose \<^verbatim>\<open>bombCount\<close> is \<open>bombs\<close>, with exactly \<open>bombs\<close> cells that are bombs, and where the number
  of every empty cell is the number of cells of the grid adjacent to it that hold a bomb.
\<close>

theorem generate_board:
  assumes w: "0 < w" and h: "0 < h" and sz: "w * h \<le> 4294967295"
    and b0: "0 < bombs" and b1: "bombs < w * h"
    and rnd: "\<And>i. rnd i \<le> i"
  shows "\<exists>b. generate w h bombs rnd = Inr b \<and>
           int (bombCount b) = bombs \<and>
           int (length (filter (\<lambda>t. t = BombTile) (array (tileData b)))) = bombs \<and>
           width (tileData b) = w \<and> height (tileData b) = h \<and>
           int (length (array (tileData b))) = w * h \<and>
           (\<forall>p k. get (tileData b) p = Inr (EmptyTile k) \<longrightarrow> k = bombsAround b p)"
proof -
  let ?n = "nat (w * h)"
  let ?k = "fillBound (w * h) bombs"
  let ?arr = "replicate ?k True @ replicate (?n - ?k) False"
  let ?sh = "shuffleArray rnd ?arr"
  have k: "?k = nat bombs" using b0 b1 by (simp add: fillBound_def)
  have kn: "?k \<le> ?n" using b0 b1 k by simp
  have ms: "mset ?sh = mset ?arr" using rnd by (rule shuffleArray_mset)
  have len: "length ?sh = ?n"
    using arg_cong[OF ms, of size] kn by simp
  have cb: "length (filter (\<lambda>isBomb. isBomb) ?sh) = nat bombs"
    using length_filter_mset[OF ms, of "\<lambda>isBomb. isBomb"] k by simp
  have n: "int ?n = w * h" using w h by simp
  have nn: "\<not> (w * h < 0 \<or> w * h > 4294967295)" using w h sz by (simp add: not_less)
  have g: "generate w h bombs rnd = constructor w h ?sh"
    unfolding generate_def Let_def using nn by (simp only: if_False)
  have li: "int (length ?sh) = w * h" using len n by simp
  from constructor_ok[OF w h li] obtain b where c: "constructor w h ?sh = Inr b" by blast
  note pr = constructor_props[OF c]
  have ok: "data_ok b" using c by (rule constructor_data_ok)
  have d: "\<forall>p k. get (tileData b) p = Inr (EmptyTile k) \<longrightarrow> k = bombsAround b p"
    using ok get_data_Inr_inb(1)[OF pr(4)] trueBombNeighbors_bombsAround[OF pr(4)]
    unfolding data_ok_def by metis
  have la: "int (length (array (tileData b))) = w * h"
    using wf_board_tileData[OF pr(4)] pr(6,7) by (simp add: wf_grid_def)
  show ?thesis
    using g c pr(6,7,10) cb constructor_bombs[OF c] b0 d la
    by (intro exI[of _ b]) simp
qed

theorem generate_board_witness:
  "(0::int) < 3 \<and> (3::int) * 3 \<le> 4294967295 \<and> (0::int) < 2 \<and> (2::int) < 3 * 3 \<and>
   (\<forall>i::nat. i div 2 \<le> i) \<and>
   (\<exists>b. generate 3 3 2 (\<lambda>i. i div 2) = Inr b \<and> int (bombCount b) = 2 \<and>
      int (length (filter (\<lambda>t. t = BombTile) (array (tileData b)))) = 2 \<and>
      array (tileData b) =
        [EmptyTile 2, BombTile, EmptyTile 1,
         BombTile, EmptyTile 2, EmptyTile 1,
         EmptyTile 1, EmptyTile 1, EmptyTile 0] \<and>
      bombsAround b (Point 0 0) = 2 \<and> bombsAround b (Point 2 0) = 1 \<and>
      bombsAround b (Point 2 2) = 0)"
proof -
  have r: "\<And>i::nat. i div 2 \<le> i" by simp
  from generate_board[of 3 3 2 "\<lambda>i. i div 2", OF _ _ _ _ _ r]
  obtain b where g: "generate 3 3 2 (\<lambda>i. i div 2) = Inr b"
    and c: "int (bombCount b) = 2"
      "int (length (filter (\<lambda>t. t = BombTile) (array (tileData b)))) = 2"
    and n: "\<forall>p k. get (tileData b) p = Inr (EmptyTile k) \<longrightarrow> k = bombsAround b p"
    by auto
  have e: "generate 3 3 2 (\<lambda>i. i div 2) =
             Inr (projr (generate 3 3 2 (\<lambda>i. i div 2)))" by code_simp
  then have b: "b = projr (generate 3 3 2 (\<lambda>i. i div 2))" using g by simp
  have a: "array (tileData b) =
        [EmptyTile 2, BombTile, EmptyTile 1,
         BombTile, EmptyTile 2, EmptyTile 1,
         EmptyTile 1, EmptyTile 1, EmptyTile 0]"
    unfolding b by code_simp
  have t: "get (tileData b) (Point 0 0) = Inr (EmptyTile 2)"
    "get (tileData b) (Point 2 0) = Inr (EmptyTile 1)"
    "get (tileData b) (Point 2 2) = Inr (EmptyTile 0)"
    unfolding b by code_simp+
  from n t have m: "bombsAround b (Point 0 0) = 2" "bombsAround b (Point 2 0) = 1"
    "bombsAround b (Point 2 2) = 0" by (metis)+
  show ?thesis using g c a m by (intro conjI exI[of _ b]) simp_all
qed

section \<open>The flood fill on a bounded call stack\<close>

text \<open>
  \<^verbatim>\<open>setTileOpen\<close> calls itself from inside its loop, so a cascade nests one activation per tile
  on the path it follows. The JavaScript engine bounds the call stack and raises a RangeError
  when a call does not fit. How many activations fit is the engine's matter, not the
  program's, so it is a parameter here: \<open>frames\<close> is the number of activations of
  \<^verbatim>\<open>setTileOpen\<close> that still fit, and the helper calls of one activation are taken to fit with
  it. The exception leaves the board as the cascade has mutated it so far.
\<close>

fun setTileOpen_frames :: "nat \<Rightarrow> Point \<Rightarrow> bool \<Rightarrow> MinesweeperBoard \<Rightarrow> result"
  and setTileOpen_frames_neighbors :: "nat \<Rightarrow> Point list \<Rightarrow> MinesweeperBoard \<Rightarrow> result" where
  "setTileOpen_frames 0 point clicked b = Inl (RangeError, b)"
| "setTileOpen_frames (Suc frames) point clicked b =
     (case get (tileState b) point of
        Inl e \<Rightarrow> Inl (e, b)
      | Inr ts \<Rightarrow>
         (case get (tileData b) point of
            Inl e \<Rightarrow> Inl (e, b)
          | Inr td \<Rightarrow>
             if isOpen ts then Inr b
             else if state ts \<noteq> Default then Inr b
             else let b1 = b\<lparr>tileState := writeBack (tileState b) point
                                  (ts\<lparr>isOpen := True, wasClicked := clicked\<rparr>),
                              tileChangedSignal := tileChangedSignal b @ [point]\<rparr>
                  in (case td of
                        BombTile \<Rightarrow> Inr b1
                      | EmptyTile n \<Rightarrow>
                          let b2 = b1\<lparr>tilesLeftToOpenToWin := tilesLeftToOpenToWin b1 - 1\<rparr>
                          in if n \<noteq> 0 then Inr b2
                             else setTileOpen_frames_neighbors frames
                                    (eightWayNeighbors point) b2)))"
| "setTileOpen_frames_neighbors frames [] b = Inr b"
| "setTileOpen_frames_neighbors frames (neighborPoint # rest) b =
     (if \<not> isInBounds (tileData b) neighborPoint
      then setTileOpen_frames_neighbors frames rest b
      else case setTileOpen_frames frames neighborPoint False b of
             Inl x \<Rightarrow> Inl x
           | Inr b' \<Rightarrow> setTileOpen_frames_neighbors frames rest b')"

declare setTileOpen_frames.simps(2) [simp del]

text \<open>
  \<open>bounded_run n b r u ps b'\<close>: on board \<open>b\<close> with \<open>n\<close> activations left, the bounded cascade
  gave \<open>r\<close> and the unbounded one \<open>u\<close>; \<open>b'\<close> is the board that \<open>r\<close> leaves, \<open>ps\<close> the tiles opened.
\<close>

definition bounded_run ::
  "nat \<Rightarrow> MinesweeperBoard \<Rightarrow> result \<Rightarrow> result \<Rightarrow> Point list \<Rightarrow> MinesweeperBoard \<Rightarrow> bool" where
  "bounded_run n b r u ps b' \<longleftrightarrow>
     (r = Inr b' \<or> r = Inl (RangeError, b')) \<and> opens b ps b' \<and>
     (closedCount b < n \<longrightarrow> r = Inr b') \<and> (r = Inr b' \<longrightarrow> u = Inr b')"

lemma closedCount_points:
  assumes wf: "wf_board b"
  shows "closedCount b
         = length (filter (\<lambda>p. \<not> isOpen (cell (tileState b) p)) (points (tileData b)))"
proof -
  have pts: "points (tileState b) = points (tileData b)"
    using wf by (intro points_cong) (simp_all add: wf_board_def)
  show ?thesis
    unfolding closedCount_def
    using count_points[OF wf_board_tileState[OF wf], of "\<lambda>t. \<not> isOpen t"] pts by simp
qed

lemma closedCount_opens:
  assumes wf: "wf_board b" and o: "opens b ps b'"
  shows "closedCount b = closedCount b' + length ps"
proof -
  note pts = points_board[OF wf]
  have wf': "wf_board b'" using o wf by (rule opens_wf)
  have td: "tileData b' = tileData b" using opens_frame[OF o] by (rule frame_tileData)
  have "length (filter (\<lambda>p. \<not> isOpen (cell (tileState b) p)) (points (tileData b)))
      = length (filter (\<lambda>p. \<not> isOpen (cell (tileState b') p)) (points (tileData b)))
        + length (filter (\<lambda>p. True) ps)"
  proof (rule length_filter_split)
    show "distinct (points (tileData b))" by (rule pts(1))
    show "distinct ps" using o by (simp add: opens_def)
    show "set ps \<subseteq> set (points (tileData b))" using o pts(2) by (auto simp: opens_def)
    show "\<forall>q \<in> set (points (tileData b)).
            (\<not> isOpen (cell (tileState b') q)) = (\<not> isOpen (cell (tileState b) q) \<and> q \<notin> set ps)"
      using o pts(2) by (auto simp: opens_def)
    show "\<forall>q \<in> set ps. (\<not> isOpen (cell (tileState b) q)) = True"
      using o by (simp add: opens_def)
  qed
  then show ?thesis
    using closedCount_points[OF wf] closedCount_points[OF wf'] td by simp
qed

lemma setTileOpen_frames_wf:
  assumes wf: "wf_board b" and inb: "isPointInBounds b p"
  shows "setTileOpen_frames (Suc n) p c b =
     (if isOpen (cell (tileState b) p) \<or> state (cell (tileState b) p) \<noteq> Default then Inr b
      else case cell (tileData b) p of
             BombTile \<Rightarrow>
               Inr (b\<lparr>tileState := writeBack (tileState b) p
                        ((cell (tileState b) p)\<lparr>isOpen := True, wasClicked := c\<rparr>),
                      tileChangedSignal := tileChangedSignal b @ [p]\<rparr>)
           | EmptyTile k \<Rightarrow>
               if k \<noteq> 0
               then Inr (b\<lparr>tileState := writeBack (tileState b) p
                        ((cell (tileState b) p)\<lparr>isOpen := True, wasClicked := c\<rparr>),
                      tileChangedSignal := tileChangedSignal b @ [p],
                      tilesLeftToOpenToWin := tilesLeftToOpenToWin b - 1\<rparr>)
               else setTileOpen_frames_neighbors n (eightWayNeighbors p)
                     (b\<lparr>tileState := writeBack (tileState b) p
                        ((cell (tileState b) p)\<lparr>isOpen := True, wasClicked := c\<rparr>),
                      tileChangedSignal := tileChangedSignal b @ [p],
                      tilesLeftToOpenToWin := tilesLeftToOpenToWin b - 1\<rparr>))"
  by (subst setTileOpen_frames.simps(2))
     (simp add: board_gets[OF wf inb] Let_def split: TileData.splits)

lemma run_done: "r = Inr b \<Longrightarrow> u = Inr b \<Longrightarrow> bounded_run n b r u [] b"
  by (simp add: bounded_run_def opens_refl)

lemma run_one: "r = Inr b' \<Longrightarrow> u = Inr b' \<Longrightarrow> opens b ps b' \<Longrightarrow> bounded_run n b r u ps b'"
  by (simp add: bounded_run_def)

lemma run_overflow: "r = Inl (RangeError, b) \<Longrightarrow> bounded_run 0 b r u [] b"
  by (simp add: bounded_run_def opens_refl)

lemma run_step:
  assumes wf: "wf_board b" and o: "opens b [p] b2" and r: "bounded_run n b2 r u ps2 b'"
  shows "bounded_run (Suc n) b r u (p # ps2) b'"
proof -
  have "closedCount b = closedCount b2 + 1" using closedCount_opens[OF wf o] by simp
  moreover have "opens b (p # ps2) b'"
    using opens_trans[OF o, of ps2 b'] r by (simp add: bounded_run_def)
  ultimately show ?thesis using r by (simp add: bounded_run_def)
qed

lemma run_seq:
  assumes wf: "wf_board b" and r1: "bounded_run n b (Inr bm) u1 ps1 bm"
    and r2: "bounded_run n bm r u ps2 b'"
  shows "bounded_run n b r u (ps1 @ ps2) b'"
proof -
  have o1: "opens b ps1 bm" using r1 by (simp add: bounded_run_def)
  have "closedCount bm \<le> closedCount b" using closedCount_opens[OF wf o1] by simp
  moreover have "opens b (ps1 @ ps2) b'"
    using opens_trans[OF o1, of ps2 b'] r2 by (simp add: bounded_run_def)
  ultimately show ?thesis using r2 by (simp add: bounded_run_def)
qed

lemma run_abort:
  assumes r1: "bounded_run n b (Inl (RangeError, bm)) u1 ps1 b1"
  shows "bounded_run n b (Inl (RangeError, bm)) u ps1 b1"
  using r1 by (simp add: bounded_run_def)

lemma frames_run:
  "wf_board b \<longrightarrow> isPointInBounds b p \<longrightarrow>
     (\<exists>ps b'. bounded_run n b (setTileOpen_frames n p c b) (setTileOpen p c b) ps b' \<and>
        (0 < n \<and> (isOpen (cell (tileState b) p) \<or> state (cell (tileState b) p) \<noteq> Default)
           \<longrightarrow> ps = [] \<and> b' = b \<and> setTileOpen_frames n p c b = Inr b))"
  "wf_board b \<longrightarrow>
     (\<exists>ps b'. bounded_run n b (setTileOpen_frames_neighbors n qs b)
                 (setTileOpen_neighbors qs b) ps b')"
proof (induct n p c b and n qs b rule: setTileOpen_frames_setTileOpen_frames_neighbors.induct)
  case (1 p c b)
  have r: "bounded_run 0 b (setTileOpen_frames 0 p c b) (setTileOpen p c b) [] b"
    by (rule run_overflow) simp
  show ?case
  proof (intro impI)
    show "\<exists>ps b'. bounded_run 0 b (setTileOpen_frames 0 p c b) (setTileOpen p c b) ps b' \<and>
        (0 < (0::nat) \<and> (isOpen (cell (tileState b) p) \<or> state (cell (tileState b) p) \<noteq> Default)
           \<longrightarrow> ps = [] \<and> b' = b \<and> setTileOpen_frames 0 p c b = Inr b)"
      using r by (intro exI[of _ "[]"] exI[of _ b]) simp
  qed
next
  case (2 n p c b)
  show ?case
  proof (intro impI)
    assume wf: "wf_board b" and inb: "isPointInBounds b p"
    let ?ts = "cell (tileState b) p"
    let ?td = "cell (tileData b) p"
    note g = board_gets[OF wf inb]
    note eqS = setTileOpen_frames_wf[OF wf inb, of n c]
    note eqU = setTileOpen_wf[OF wf inb, of c]
    let ?G = "\<exists>ps b'. bounded_run (Suc n) b (setTileOpen_frames (Suc n) p c b)
                        (setTileOpen p c b) ps b' \<and>
        (0 < Suc n \<and> (isOpen ?ts \<or> state ?ts \<noteq> Default)
           \<longrightarrow> ps = [] \<and> b' = b \<and> setTileOpen_frames (Suc n) p c b = Inr b)"
    show ?G
    proof (cases "isOpen ?ts \<or> state ?ts \<noteq> Default")
      case True
      have s: "setTileOpen_frames (Suc n) p c b = Inr b" using eqS True by simp
      have u: "setTileOpen p c b = Inr b" using eqU True by simp
      have "bounded_run (Suc n) b (setTileOpen_frames (Suc n) p c b) (setTileOpen p c b) [] b"
        using s u by (rule run_done)
      then show ?thesis using s by (intro exI[of _ "[]"] exI[of _ b]) simp
    next
      case False
      then have closed: "\<not> isOpen ?ts" and dflt: "state ?ts = Default" by auto
      define b1 where "b1 = b\<lparr>tileState := writeBack (tileState b) p
                                  (?ts\<lparr>isOpen := True, wasClicked := c\<rparr>),
                              tileChangedSignal := tileChangedSignal b @ [p]\<rparr>"
      show ?thesis
      proof (cases "\<exists>k. ?td = EmptyTile k \<and> k = 0")
        case nonzero: False
        define m where "m = tilesLeftToOpenToWin b - (if ?td = BombTile then 0 else 1)"
        define b' where "b' = b1\<lparr>tilesLeftToOpenToWin := m\<rparr>"
        have o: "opens b [p] b'"
          using open_one[OF wf inb closed dflt m_def, of c] by (simp add: b'_def b1_def)
        have s: "setTileOpen_frames (Suc n) p c b = Inr b'"
          using eqS False nonzero by (cases ?td) (simp_all add: m_def b'_def b1_def)
        have u: "setTileOpen p c b = Inr b'"
          using eqU False nonzero by (cases ?td) (simp_all add: m_def b'_def b1_def)
        have "bounded_run (Suc n) b (setTileOpen_frames (Suc n) p c b) (setTileOpen p c b) [p] b'"
          using s u o by (rule run_one)
        then show ?thesis using False by (intro exI[of _ "[p]"] exI[of _ b']) simp
      next
        case zero: True
        then have td: "?td = EmptyTile 0" by auto
        define b2 where "b2 = b1\<lparr>tilesLeftToOpenToWin := tilesLeftToOpenToWin b1 - 1\<rparr>"
        have o: "opens b [p] b2"
          using open_one[OF wf inb closed dflt, of "tilesLeftToOpenToWin b - 1" c] td
          by (simp add: b2_def b1_def)
        have wf2: "wf_board b2" using o wf by (rule opens_wf)
        have s: "setTileOpen_frames (Suc n) p c b
                 = setTileOpen_frames_neighbors n (eightWayNeighbors p) b2"
          using eqS False td by (simp add: b2_def b1_def)
        have u: "setTileOpen p c b = setTileOpen_neighbors (eightWayNeighbors p) b2"
          using eqU False td by (simp add: b2_def b1_def)
        have nd: "\<not> state ?ts \<noteq> Default" using dflt by simp
        have nz: "\<not> (0::nat) \<noteq> 0" by simp
        note ih = "2"[OF g(1) g(2) closed nd b1_def td b2_def nz, rule_format, OF wf2]
        then obtain ps2 b' where
          r: "bounded_run n b2 (setTileOpen_frames_neighbors n (eightWayNeighbors p) b2)
                (setTileOpen_neighbors (eightWayNeighbors p) b2) ps2 b'" by blast
        have "bounded_run (Suc n) b (setTileOpen_frames (Suc n) p c b) (setTileOpen p c b)
                (p # ps2) b'"
          unfolding s u using wf o r by (rule run_step)
        then show ?thesis using False by (intro exI[of _ "p # ps2"] exI[of _ b']) simp
      qed
    qed
  qed
next
  case (3 n b)
  have "bounded_run n b (setTileOpen_frames_neighbors n [] b) (setTileOpen_neighbors [] b) [] b"
    by (rule run_done) simp_all
  then show ?case by blast
next
  case (4 n q rest b)
  show ?case
  proof (intro impI)
    assume wf: "wf_board b"
    show "\<exists>ps b'. bounded_run n b (setTileOpen_frames_neighbors n (q # rest) b)
                 (setTileOpen_neighbors (q # rest) b) ps b'"
    proof (cases "isInBounds (tileData b) q")
      case False
      note ih = "4"(1)[OF False, rule_format, OF wf]
      have "setTileOpen_frames_neighbors n (q # rest) b = setTileOpen_frames_neighbors n rest b"
        "setTileOpen_neighbors (q # rest) b = setTileOpen_neighbors rest b"
        using False by simp_all
      with ih show ?thesis by simp
    next
      case True
      then have inb: "isPointInBounds b q" by (simp add: isPointInBounds_def)
      have nn: "\<not> \<not> isInBounds (tileData b) q" using True by simp
      note ih2 = "4"(2)[OF nn, rule_format, OF wf inb]
      then obtain ps1 bm where
        r1: "bounded_run n b (setTileOpen_frames n q False b) (setTileOpen q False b) ps1 bm"
        by blast
      then have c1: "setTileOpen_frames n q False b = Inr bm \<or>
                     setTileOpen_frames n q False b = Inl (RangeError, bm)"
        by (simp add: bounded_run_def)
      then show ?thesis
      proof
        assume s1: "setTileOpen_frames n q False b = Inr bm"
        then have u1: "setTileOpen q False b = Inr bm" using r1 by (simp add: bounded_run_def)
        have o1: "opens b ps1 bm" using r1 by (simp add: bounded_run_def)
        have wfm: "wf_board bm" using o1 wf by (rule opens_wf)
        note ih3 = "4"(3)[OF nn s1, rule_format, OF wfm]
        then obtain ps2 b' where
          r2: "bounded_run n bm (setTileOpen_frames_neighbors n rest bm)
                 (setTileOpen_neighbors rest bm) ps2 b'" by blast
        have s: "setTileOpen_frames_neighbors n (q # rest) b
                 = setTileOpen_frames_neighbors n rest bm" using True s1 by simp
        have u: "setTileOpen_neighbors (q # rest) b = setTileOpen_neighbors rest bm"
          using True u1 by simp
        have "bounded_run n b (setTileOpen_frames_neighbors n (q # rest) b)
                 (setTileOpen_neighbors (q # rest) b) (ps1 @ ps2) b'"
          unfolding s u using wf r1[unfolded s1] r2 by (rule run_seq)
        then show ?thesis by blast
      next
        assume s1: "setTileOpen_frames n q False b = Inl (RangeError, bm)"
        have s: "setTileOpen_frames_neighbors n (q # rest) b = Inl (RangeError, bm)"
          using True s1 by simp
        have "bounded_run n b (setTileOpen_frames_neighbors n (q # rest) b)
                 (setTileOpen_neighbors (q # rest) b) ps1 bm"
          unfolding s using r1[unfolded s1] by (rule run_abort)
        then show ?thesis by blast
      qed
    qed
  qed
qed

text \<open>
  Claim C6 says that the recursive open runs to completion for every board and every point.
  At a point outside the grid the first read of \<^verbatim>\<open>setTileOpen\<close> throws the out-of-bounds error
  of \<^verbatim>\<open>Grid.get\<close>, however large the call stack, and so does \<^verbatim>\<open>clickTile\<close> before it opens
  anything.
\<close>

theorem open_out_of_bounds_throws:
  "setTileOpen (Point 3 0) True board_3x1 = Inl (OutOfBounds (Point 3 0), board_3x1) \<and>
   setTileOpen_frames 9 (Point 3 0) True board_3x1 = Inl (OutOfBounds (Point 3 0), board_3x1) \<and>
   clickTile (Point 3 0) board_3x1
     = Inl (OutOfBounds (Point 3 0), set_boardState Active board_3x1)"
  unfolding board_3x1_def by code_simp

text \<open>
  Claim C6 as amended: on every well-formed board and at every point in bounds, the recursive
  open terminates, whatever the size of the call stack: it either returns normally or is cut
  off by the engine's RangeError when the stack is exhausted. In both cases the tiles it
  has notified are all different, each was closed before the call and is open after it, and no
  other tile has changed: a cell is opened at most once, so no more tiles are opened than were
  closed, and a call on a tile that is open already is a no-op with no notification. The call
  returns normally whenever the stack holds more activations than the board has closed tiles,
  and whenever it returns normally its result is that of \<^verbatim>\<open>setTileOpen\<close> on an unbounded stack.
\<close>

theorem flood_fill_terminates:
  assumes wf: "wf_board b" and inb: "isPointInBounds b point"
  shows "\<exists>ps b'.
           (setTileOpen_frames frames point clicked b = Inr b' \<or>
            setTileOpen_frames frames point clicked b = Inl (RangeError, b')) \<and>
           tileChangedSignal b' = tileChangedSignal b @ ps \<and> distinct ps \<and>
           length ps \<le> closedCount b \<and>
           (\<forall>q \<in> set ps. \<exists>ts ts'. get (tileState b) q = Inr ts \<and> \<not> isOpen ts \<and>
                                     get (tileState b') q = Inr ts' \<and> isOpen ts') \<and>
           (\<forall>q. q \<notin> set ps \<longrightarrow> get (tileState b') q = get (tileState b) q) \<and>
           (\<forall>ts. 0 < frames \<and> get (tileState b) point = Inr ts \<and> isOpen ts \<longrightarrow>
                 ps = [] \<and> b' = b \<and> setTileOpen_frames frames point clicked b = Inr b) \<and>
           (closedCount b < frames \<longrightarrow> setTileOpen_frames frames point clicked b = Inr b') \<and>
           (setTileOpen_frames frames point clicked b = Inr b' \<longrightarrow>
              setTileOpen point clicked b = Inr b')"
proof -
  from frames_run(1)[of b point frames clicked, rule_format, OF wf inb] obtain ps b' where
    r: "bounded_run frames b (setTileOpen_frames frames point clicked b)
          (setTileOpen point clicked b) ps b'"
    and n: "0 < frames \<and> (isOpen (cell (tileState b) point) \<or>
                           state (cell (tileState b) point) \<noteq> Default)
            \<longrightarrow> ps = [] \<and> b' = b \<and> setTileOpen_frames frames point clicked b = Inr b"
    by blast
  have o: "opens b ps b'" using r by (simp add: bounded_run_def)
  note og = opens_gets[OF wf o]
  have 0: "setTileOpen_frames frames point clicked b = Inr b' \<or>
           setTileOpen_frames frames point clicked b = Inl (RangeError, b')"
    using r by (simp add: bounded_run_def)
  have 1: "tileChangedSignal b' = tileChangedSignal b @ ps" "distinct ps"
    using o by (simp_all add: opens_def)
  have 2: "length ps \<le> closedCount b" using closedCount_opens[OF wf o] by simp
  have 3: "\<forall>q \<in> set ps. \<exists>ts ts'. get (tileState b) q = Inr ts \<and> \<not> isOpen ts \<and>
                                     get (tileState b') q = Inr ts' \<and> isOpen ts'"
    using og(1) by blast
  have 4: "\<forall>q. q \<notin> set ps \<longrightarrow> get (tileState b') q = get (tileState b) q"
    using og(2) by blast
  have 5: "\<forall>ts. 0 < frames \<and> get (tileState b) point = Inr ts \<and> isOpen ts \<longrightarrow>
                 ps = [] \<and> b' = b \<and> setTileOpen_frames frames point clicked b = Inr b"
    using n board_gets(1)[OF wf inb] by simp
  have 6: "closedCount b < frames \<longrightarrow> setTileOpen_frames frames point clicked b = Inr b'"
    using r by (simp add: bounded_run_def)
  have 7: "setTileOpen_frames frames point clicked b = Inr b' \<longrightarrow>
              setTileOpen point clicked b = Inr b'"
    using r by (simp add: bounded_run_def)
  show ?thesis by (intro exI[of _ ps] exI[of _ b'] conjI 0 1 2 3 4 5 6 7)
qed

theorem flood_fill_terminates_witness:
  "wf_board board_3x1 \<and> isPointInBounds board_3x1 (Point 2 0) \<and> closedCount board_3x1 < 4 \<and>
   (\<exists>ps b'. setTileOpen_frames 4 (Point 2 0) True board_3x1 = Inr b' \<and>
      setTileOpen (Point 2 0) True board_3x1 = Inr b' \<and>
      tileChangedSignal b' = tileChangedSignal board_3x1 @ ps \<and> distinct ps) \<and>
   (\<exists>b'. setTileOpen_frames 1 (Point 2 0) True board_3x1 = Inl (RangeError, b') \<and>
      map isOpen (array (tileState b')) = [False, False, True])"
proof -
  have h: "wf_board board_3x1" "isPointInBounds board_3x1 (Point 2 0)"
    unfolding board_3x1_def by code_simp+
  have c: "closedCount board_3x1 < 4" unfolding board_3x1_def by code_simp
  from flood_fill_terminates[OF h, of 4 True] c
  have 1: "\<exists>ps b'. setTileOpen_frames 4 (Point 2 0) True board_3x1 = Inr b' \<and>
      setTileOpen (Point 2 0) True board_3x1 = Inr b' \<and>
      tileChangedSignal b' = tileChangedSignal board_3x1 @ ps \<and> distinct ps" by blast
  have e: "setTileOpen_frames 1 (Point 2 0) True board_3x1
           = Inl (RangeError, snd (projl (setTileOpen_frames 1 (Point 2 0) True board_3x1)))"
    "map isOpen (array (tileState (snd (projl (setTileOpen_frames 1 (Point 2 0) True board_3x1)))))
       = [False, False, True]"
    unfolding board_3x1_def by code_simp+
  have 2: "\<exists>b'. setTileOpen_frames 1 (Point 2 0) True board_3x1 = Inl (RangeError, b') \<and>
      map isOpen (array (tileState b')) = [False, False, True]"
    by (rule exI[of _ "snd (projl (setTileOpen_frames 1 (Point 2 0) True board_3x1))"])
       (intro conjI e)
  show ?thesis by (intro conjI h c 1 2)
qed

end
